theory Spec2Isabelle
  imports Main "HOL-Library.List_Lexorder" "HOL-Library.Char_ord"
begin

section \<open>Tokens (lex.py)\<close>

text \<open>
  The enumeration \<^verbatim>\<open>TokenType\<close>, with the member names of the source. Its members carry
  an integer value and a name; \<^verbatim>\<open>for kind in TokenType\<close> visits them in definition order.
\<close>

datatype TokenType =
    EOF | NEWLINE | NUMBER | IDENT | STRING
  | LABEL | GOTO | PRINT | INPUT | LET | IF | THEN | ENDIF | WHILE | REPEAT | ENDWHILE
  | EQ | PLUS | MINUS | ASTERISK | SLASH | EQEQ | NOTEQ | LT | LTEQ | GT | GTEQ

fun TokenType_value :: "TokenType \<Rightarrow> int" where
  "TokenType_value EOF = -1"
| "TokenType_value NEWLINE = 0"
| "TokenType_value NUMBER = 1"
| "TokenType_value IDENT = 2"
| "TokenType_value STRING = 3"
| "TokenType_value LABEL = 101"
| "TokenType_value GOTO = 102"
| "TokenType_value PRINT = 103"
| "TokenType_value INPUT = 104"
| "TokenType_value LET = 105"
| "TokenType_value IF = 106"
| "TokenType_value THEN = 107"
| "TokenType_value ENDIF = 108"
| "TokenType_value WHILE = 109"
| "TokenType_value REPEAT = 110"
| "TokenType_value ENDWHILE = 111"
| "TokenType_value EQ = 201"
| "TokenType_value PLUS = 202"
| "TokenType_value MINUS = 203"
| "TokenType_value ASTERISK = 204"
| "TokenType_value SLASH = 205"
| "TokenType_value EQEQ = 206"
| "TokenType_value NOTEQ = 207"
| "TokenType_value LT = 208"
| "TokenType_value LTEQ = 209"
| "TokenType_value GT = 210"
| "TokenType_value GTEQ = 211"

fun TokenType_name :: "TokenType \<Rightarrow> string" where
  "TokenType_name EOF = ''EOF''"
| "TokenType_name NEWLINE = ''NEWLINE''"
| "TokenType_name NUMBER = ''NUMBER''"
| "TokenType_name IDENT = ''IDENT''"
| "TokenType_name STRING = ''STRING''"
| "TokenType_name LABEL = ''LABEL''"
| "TokenType_name GOTO = ''GOTO''"
| "TokenType_name PRINT = ''PRINT''"
| "TokenType_name INPUT = ''INPUT''"
| "TokenType_name LET = ''LET''"
| "TokenType_name IF = ''IF''"
| "TokenType_name THEN = ''THEN''"
| "TokenType_name ENDIF = ''ENDIF''"
| "TokenType_name WHILE = ''WHILE''"
| "TokenType_name REPEAT = ''REPEAT''"
| "TokenType_name ENDWHILE = ''ENDWHILE''"
| "TokenType_name EQ = ''EQ''"
| "TokenType_name PLUS = ''PLUS''"
| "TokenType_name MINUS = ''MINUS''"
| "TokenType_name ASTERISK = ''ASTERISK''"
| "TokenType_name SLASH = ''SLASH''"
| "TokenType_name EQEQ = ''EQEQ''"
| "TokenType_name NOTEQ = ''NOTEQ''"
| "TokenType_name LT = ''LT''"
| "TokenType_name LTEQ = ''LTEQ''"
| "TokenType_name GT = ''GT''"
| "TokenType_name GTEQ = ''GTEQ''"

definition TokenType_members :: "TokenType list" where
  "TokenType_members =
     [EOF, NEWLINE, NUMBER, IDENT, STRING,
      LABEL, GOTO, PRINT, INPUT, LET, IF, THEN, ENDIF, WHILE, REPEAT, ENDWHILE,
      EQ, PLUS, MINUS, ASTERISK, SLASH, EQEQ, NOTEQ, LT, LTEQ, GT, GTEQ]"

record Token =
  "text" :: string
  kind :: TokenType

text \<open>
  \<^verbatim>\<open>Token.is_keyword\<close>: the first member whose name is the text and whose value lies in
  \<^verbatim>\<open>100..200\<close>, or \<^verbatim>\<open>None\<close>.
\<close>

definition is_keyword :: "string \<Rightarrow> TokenType option" where
  "is_keyword t =
     find (\<lambda>k. TokenType_name k = t \<and> 100 \<le> TokenType_value k \<and> TokenType_value k \<le> 200)
       TokenType_members"

section \<open>Errors and results\<close>

text \<open>
  Both \<^verbatim>\<open>abort\<close> methods end the process with \<^verbatim>\<open>sys.exit\<close>. The lexer's prefixes its
  message with \<^verbatim>\<open>Lexing error. \<close>, the parser's with \<^verbatim>\<open>Error \<close>. The message is kept as
  a value that records the abort site and the data formatted into the text.
\<close>

datatype lexer_message =
    Expected_noteq_got char
  | Illegal_character_in_string
  | Illegal_character_in_number int
  | Unknown_token char

datatype parser_message =
    Expected_got TokenType TokenType
  | Attempting_to_GOTO_an_undeclared_label string
  | Label_already_exists string
  | Invalid_statement_at string TokenType
  | Expected_comparison_operator_at string
  | Referencing_variable_before_assignment string
  | Unexpected_token_at string

datatype error =
    Lexing_error lexer_message
  | Error parser_message

text \<open>
  A computation either returns a value (\<open>Some (Inr x)\<close>), ends the process with an error
  (\<open>Some (Inl e)\<close>), or does not return (\<open>None\<close>).
\<close>

type_synonym 'a result = "(error + 'a) option"

definition ok :: "'a \<Rightarrow> 'a result" where
  "ok x = Some (Inr x)"

definition exit_with :: "error \<Rightarrow> 'a result" where
  "exit_with e = Some (Inl e)"

definition bind :: "'a result \<Rightarrow> ('a \<Rightarrow> 'b result) \<Rightarrow> 'b result" where
  "bind m f = (case m of None \<Rightarrow> None | Some (Inl e) \<Rightarrow> Some (Inl e) | Some (Inr x) \<Rightarrow> f x)"

section \<open>Lexer (lex.py)\<close>

text \<open>
  Characters are the 8-bit code points of HOL's \<open>char\<close>; \<^verbatim>\<open>"\0"\<close> is \<open>CHR 0x00\<close>.
  \<^verbatim>\<open>str.isdigit\<close>, \<^verbatim>\<open>str.isalpha\<close> and \<^verbatim>\<open>str.isalnum\<close> are Python's classification
  of these code points (superscript digits count as digits, Latin-1 letters as letters,
  the vulgar fractions as alphanumeric).
\<close>

definition isdigit :: "char \<Rightarrow> bool" where
  "isdigit c = (let n = (of_char c :: nat) in
     (48 \<le> n \<and> n \<le> 57) \<or> n = 178 \<or> n = 179 \<or> n = 185)"

definition isalpha :: "char \<Rightarrow> bool" where
  "isalpha c = (let n = (of_char c :: nat) in
     (65 \<le> n \<and> n \<le> 90) \<or> (97 \<le> n \<and> n \<le> 122) \<or> n = 170 \<or> n = 181 \<or> n = 186 \<or>
     (192 \<le> n \<and> n \<le> 214) \<or> (216 \<le> n \<and> n \<le> 246) \<or> (248 \<le> n \<and> n \<le> 255))"

definition isalnum :: "char \<Rightarrow> bool" where
  "isalnum c = (let n = (of_char c :: nat) in
     isalpha c \<or> isdigit c \<or> (188 \<le> n \<and> n \<le> 190))"

record Lexer =
  source :: string
  source_len :: int
  char :: char
  pos :: int

definition next_char :: "Lexer \<Rightarrow> Lexer" where
  "next_char l = (let p = pos l + 1 in
     if p \<ge> source_len l then l\<lparr>pos := p, char := CHR 0x00\<rparr>
     else l\<lparr>pos := p, char := source l ! nat p\<rparr>)"

definition peek :: "Lexer \<Rightarrow> char" where
  "peek l = (if pos l + 1 \<ge> source_len l then CHR 0x00 else source l ! nat (pos l + 1))"

text \<open>
  The constructor appends a newline to the input, sets \<^verbatim>\<open>pos = -1\<close> and
  \<^verbatim>\<open>char = ""\<close>, and calls \<^verbatim>\<open>next_char\<close>, which overwrites \<^verbatim>\<open>char\<close>; the empty
  string has no counterpart in \<open>char\<close> and is written \<open>CHR 0x00\<close> here.
\<close>

definition Lexer_init :: "string \<Rightarrow> Lexer" where
  "Lexer_init input = (let src = input @ [CHR 0x0A] in
     next_char \<lparr>source = src, source_len = int (length src), char = CHR 0x00, pos = -1\<rparr>)"

definition Lexer_abort :: "lexer_message \<Rightarrow> 'a result" where
  "Lexer_abort message = exit_with (Lexing_error message)"

partial_function (option) skip_whitespace :: "Lexer \<Rightarrow> Lexer result" where
  "skip_whitespace l =
     (if char l \<in> set [CHR 0x20, CHR 0x09, CHR 0x0D] then skip_whitespace (next_char l)
      else ok l)"

partial_function (option) skip_comment_loop :: "Lexer \<Rightarrow> Lexer result" where
  "skip_comment_loop l =
     (if char l \<noteq> CHR 0x0A then skip_comment_loop (next_char l) else ok l)"

definition skip_comment :: "Lexer \<Rightarrow> Lexer result" where
  "skip_comment l = (if char l = CHR ''#'' then skip_comment_loop l else ok l)"

text \<open>
  The loop that scans a string literal. \<^verbatim>\<open>self.char\<close> is a string of one character, and
  the test compares it with each member of the tuple, one of which has two characters.
\<close>

partial_function (option) string_loop :: "Lexer \<Rightarrow> Lexer result" where
  "string_loop l =
     (if char l \<noteq> CHR 0x22 then
        (if [char l] \<in> set [[CHR 0x0D], [CHR 0x09], [CHR 0x0A], ''//'', ''%'']
         then Lexer_abort Illegal_character_in_string
         else string_loop (next_char l))
      else ok l)"

partial_function (option) digits_loop :: "Lexer \<Rightarrow> Lexer result" where
  "digits_loop l = (if isdigit (peek l) then digits_loop (next_char l) else ok l)"

partial_function (option) alnum_loop :: "Lexer \<Rightarrow> Lexer result" where
  "alnum_loop l = (if isalnum (peek l) then alnum_loop (next_char l) else ok l)"

declare skip_whitespace.simps [code]
declare skip_comment_loop.simps [code]
declare string_loop.simps [code]
declare digits_loop.simps [code]
declare alnum_loop.simps [code]

text \<open>
  \<^verbatim>\<open>source[a:b]\<close> for indices that are not negative (the cursor never is, once the lexer
  is constructed): Python clips both ends to the length.
\<close>

definition slice :: "string \<Rightarrow> int \<Rightarrow> int \<Rightarrow> string" where
  "slice s a b = drop (nat a) (take (nat b) s)"

text \<open>
  The \<^verbatim>\<open>if\<close>/\<^verbatim>\<open>elif\<close> chain of \<^verbatim>\<open>get_token\<close>: the token and the lexer as it is when
  the chain is left.
\<close>

definition scan_token :: "Lexer \<Rightarrow> (Token \<times> Lexer) result" where
  "scan_token l =
    (if char l = CHR ''+'' then ok (\<lparr>text = [char l], kind = PLUS\<rparr>, l)
     else if char l = CHR ''-'' then ok (\<lparr>text = [char l], kind = MINUS\<rparr>, l)
     else if char l = CHR ''*'' then ok (\<lparr>text = [char l], kind = ASTERISK\<rparr>, l)
     else if char l = CHR ''/'' then ok (\<lparr>text = [char l], kind = SLASH\<rparr>, l)
     else if char l = CHR ''='' then
       (if peek l = CHR ''='' then
          (let last_char = char l; l1 = next_char l in
           ok (\<lparr>text = [last_char], kind = EQEQ\<rparr>, l1))
        else ok (\<lparr>text = [char l], kind = EQ\<rparr>, l))
     else if char l = CHR ''>'' then
       (if peek l = CHR ''='' then
          (let last_char = char l; l1 = next_char l in
           ok (\<lparr>text = [last_char, char l1], kind = GTEQ\<rparr>, l1))
        else ok (\<lparr>text = [char l], kind = GT\<rparr>, l))
     else if char l = CHR ''<'' then
       (if peek l = CHR ''='' then
          (let last_char = char l; l1 = next_char l in
           ok (\<lparr>text = [last_char, char l1], kind = LTEQ\<rparr>, l1))
        else ok (\<lparr>text = [char l], kind = LT\<rparr>, l))
     else if char l = CHR ''!'' then
       (if peek l = CHR ''='' then
          (let last_char = char l; l1 = next_char l in
           ok (\<lparr>text = [last_char, char l1], kind = NOTEQ\<rparr>, l1))
        else Lexer_abort (Expected_noteq_got (peek l)))
     else if char l = CHR 0x22 then
       (let l1 = next_char l; start = pos l1 in
        bind (string_loop l1) (\<lambda>l2.
          ok (\<lparr>text = slice (source l2) start (pos l2), kind = STRING\<rparr>, l2)))
     else if isdigit (char l) then
       (let start = pos l in
        bind (digits_loop l) (\<lambda>l1.
        bind (if peek l1 = CHR ''.'' then
                (let l2 = next_char l1 in
                 if \<not> isdigit (peek l2) then Lexer_abort (Illegal_character_in_number (pos l2))
                 else digits_loop l2)
              else ok l1) (\<lambda>l3.
          ok (\<lparr>text = slice (source l3) start (pos l3 + 1), kind = NUMBER\<rparr>, l3))))
     else if isalpha (char l) then
       (let start = pos l in
        bind (alnum_loop l) (\<lambda>l1.
          (let text = slice (source l1) start (pos l1 + 1); keyword = is_keyword text in
           case keyword of
             None \<Rightarrow> ok (\<lparr>text = text, kind = IDENT\<rparr>, l1)
           | Some k \<Rightarrow> ok (\<lparr>text = text, kind = k\<rparr>, l1))))
     else if char l = CHR 0x0A then ok (\<lparr>text = [char l], kind = NEWLINE\<rparr>, l)
     else if char l = CHR 0x00 then ok (\<lparr>text = [char l], kind = EOF\<rparr>, l)
     else Lexer_abort (Unknown_token (char l)))"

definition get_token :: "Lexer \<Rightarrow> (Token \<times> Lexer) result" where
  "get_token l =
     bind (skip_whitespace l) (\<lambda>l1.
     bind (skip_comment l1) (\<lambda>l2.
     bind (scan_token l2) (\<lambda>(token, l3).
       ok (token, next_char l3))))"

section \<open>Emitter (emit.py)\<close>

record Emitter =
  outfile :: string
  header :: string
  code :: string

definition Emitter_init :: "string \<Rightarrow> Emitter" where
  "Emitter_init out = \<lparr>outfile = out, header = [], code = []\<rparr>"

definition emit :: "string \<Rightarrow> Emitter \<Rightarrow> Emitter" where
  "emit c e = e\<lparr>code := code e @ c\<rparr>"

definition emit_line :: "string \<Rightarrow> Emitter \<Rightarrow> Emitter" where
  "emit_line c e = e\<lparr>code := code e @ c @ [CHR 0x0A]\<rparr>"

definition header_line :: "string \<Rightarrow> Emitter \<Rightarrow> Emitter" where
  "header_line c e = e\<lparr>header := header e @ c @ [CHR 0x0A]\<rparr>"

text \<open>\<^verbatim>\<open>write_file\<close> writes this text to \<^verbatim>\<open>outfile\<close>.\<close>

definition write_file :: "Emitter \<Rightarrow> string" where
  "write_file e = header e @ code e"

section \<open>Parser (parse.py)\<close>

text \<open>
  The parser owns the lexer and the emitter, so both are fields of its state. The
  \<^verbatim>\<open>print\<close> calls that trace the grammar rules on the console are left out. In the
  emitted text a backslash is \<open>CHR 0x5C\<close>.
\<close>

record Parser =
  lex :: Lexer
  emitter :: Emitter
  current_token :: Token
  peek_token :: Token
  symbols :: "string set"
  labels_declared :: "string set"
  labels_gotoed :: "string set"

definition Parser_abort :: "parser_message \<Rightarrow> 'a result" where
  "Parser_abort message = exit_with (Error message)"

definition check_token :: "TokenType \<Rightarrow> Parser \<Rightarrow> bool" where
  "check_token k s = (k = kind (current_token s))"

definition check_peek :: "TokenType \<Rightarrow> Parser \<Rightarrow> bool" where
  "check_peek k s = (k = kind (peek_token s))"

definition next_token :: "Parser \<Rightarrow> Parser result" where
  "next_token s =
     bind (get_token (lex s)) (\<lambda>(t, l).
       ok (s\<lparr>current_token := peek_token s, peek_token := t, lex := l\<rparr>))"

definition match :: "TokenType \<Rightarrow> Parser \<Rightarrow> Parser result" where
  "match k s =
     (if \<not> check_token k s then Parser_abort (Expected_got k (kind (current_token s)))
      else next_token s)"

text \<open>
  The constructor sets both tokens to \<^verbatim>\<open>None\<close> and calls \<^verbatim>\<open>next_token\<close> twice, which
  overwrites both without reading \<^verbatim>\<open>peek_token\<close>'s fields; \<^verbatim>\<open>None\<close> is written as
  an end-of-input token with an empty text.
\<close>

definition Parser_init :: "Lexer \<Rightarrow> Emitter \<Rightarrow> Parser result" where
  "Parser_init lexer em =
     bind (next_token \<lparr>lex = lexer, emitter = em,
                        current_token = \<lparr>text = [], kind = EOF\<rparr>,
                        peek_token = \<lparr>text = [], kind = EOF\<rparr>,
                        symbols = {}, labels_declared = {}, labels_gotoed = {}\<rparr>)
       next_token"

text \<open>
  The loops of the parser take a bound on the number of iterations and nested calls left;
  with none left the result is \<open>None\<close>.

  \<^verbatim>\<open>while self.check_token(TokenType.NEWLINE): self.next_token()\<close>, which occurs in
  \<^verbatim>\<open>program\<close> and in \<^verbatim>\<open>nl\<close>:
\<close>

fun skip_newlines :: "nat \<Rightarrow> Parser \<Rightarrow> Parser result" where
  "skip_newlines 0 s = None"
| "skip_newlines (Suc n) s =
     (if check_token NEWLINE s then bind (next_token s) (skip_newlines n) else ok s)"

definition nl :: "nat \<Rightarrow> Parser \<Rightarrow> Parser result" where
  "nl n s = bind (match NEWLINE s) (skip_newlines n)"

definition is_comparison_op :: "Parser \<Rightarrow> bool" where
  "is_comparison_op s = list_ex (\<lambda>k. check_token k s) [GT, LT, GTEQ, LTEQ, EQEQ, NOTEQ]"

definition primary :: "Parser \<Rightarrow> Parser result" where
  "primary s =
     (if check_token NUMBER s then
        next_token (s\<lparr>emitter := emit (text (current_token s)) (emitter s)\<rparr>)
      else if check_token IDENT s then
        (if text (current_token s) \<notin> symbols s then
           Parser_abort (Referencing_variable_before_assignment (text (current_token s)))
         else next_token (s\<lparr>emitter := emit (text (current_token s)) (emitter s)\<rparr>))
      else Parser_abort (Unexpected_token_at (text (current_token s))))"

definition unary :: "Parser \<Rightarrow> Parser result" where
  "unary s =
     (if check_token PLUS s \<or> check_token MINUS s then
        bind (next_token (s\<lparr>emitter := emit (text (current_token s)) (emitter s)\<rparr>)) primary
      else primary s)"

fun term_loop :: "nat \<Rightarrow> Parser \<Rightarrow> Parser result" where
  "term_loop 0 s = None"
| "term_loop (Suc n) s =
     (if check_token ASTERISK s \<or> check_token SLASH s then
        bind (next_token (s\<lparr>emitter := emit (text (current_token s)) (emitter s)\<rparr>)) (\<lambda>s1.
        bind (unary s1) (term_loop n))
      else ok s)"

definition "term" :: "nat \<Rightarrow> Parser \<Rightarrow> Parser result" where
  "term n s = bind (unary s) (term_loop n)"

fun expression_loop :: "nat \<Rightarrow> Parser \<Rightarrow> Parser result" where
  "expression_loop 0 s = None"
| "expression_loop (Suc n) s =
     (if check_token PLUS s \<or> check_token MINUS s then
        bind (next_token (s\<lparr>emitter := emit (text (current_token s)) (emitter s)\<rparr>)) (\<lambda>s1.
        bind (term n s1) (expression_loop n))
      else ok s)"

definition expression :: "nat \<Rightarrow> Parser \<Rightarrow> Parser result" where
  "expression n s = bind (term n s) (expression_loop n)"

fun comparison_loop :: "nat \<Rightarrow> Parser \<Rightarrow> Parser result" where
  "comparison_loop 0 s = None"
| "comparison_loop (Suc n) s =
     (if is_comparison_op s then
        bind (next_token (s\<lparr>emitter := emit (text (current_token s)) (emitter s)\<rparr>)) (\<lambda>s1.
        bind (expression n s1) (comparison_loop n))
      else ok s)"

definition comparison :: "nat \<Rightarrow> Parser \<Rightarrow> Parser result" where
  "comparison n s =
     bind (expression n s) (\<lambda>s1.
     bind (if is_comparison_op s1 then
             bind (next_token (s1\<lparr>emitter := emit (text (current_token s1)) (emitter s1)\<rparr>))
               (expression n)
           else Parser_abort (Expected_comparison_operator_at (text (current_token s1))))
       (comparison_loop n))"

text \<open>
  \<^verbatim>\<open>statement\<close>, and the loop \<^verbatim>\<open>while not self.check_token(k): self.statement()\<close> of
  its \<^verbatim>\<open>IF\<close> branch (\<open>k = ENDIF\<close>), of its \<^verbatim>\<open>WHILE\<close> branch (\<open>k = ENDWHILE\<close>)
  and of \<^verbatim>\<open>program\<close> (\<open>k = EOF\<close>).
\<close>

fun statement :: "nat \<Rightarrow> Parser \<Rightarrow> Parser result"
  and statements_until :: "nat \<Rightarrow> TokenType \<Rightarrow> Parser \<Rightarrow> Parser result" where
  \<open>statement 0 s = None\<close>
| \<open>statement (Suc n) s =
     bind
      (if check_token PRINT s then
         bind (next_token s) (\<lambda>s1.
           if check_token STRING s1 then
             next_token (s1\<lparr>emitter :=
               emit_line (''printf("'' @ text (current_token s1) @ [CHR 0x5C] @ ''n");'') (emitter s1)\<rparr>)
           else
             bind (expression n (s1\<lparr>emitter :=
                     emit (''printf("%'' @ ''.2f'' @ [CHR 0x5C] @ ''n", (float)('') (emitter s1)\<rparr>)) (\<lambda>s2.
               ok (s2\<lparr>emitter := emit_line ''));'' (emitter s2)\<rparr>)))
       else if check_token IF s then
         bind (next_token s) (\<lambda>s1.
         bind (comparison n (s1\<lparr>emitter := emit ''if('' (emitter s1)\<rparr>)) (\<lambda>s2.
         bind (match THEN s2) (\<lambda>s3.
         bind (nl n s3) (\<lambda>s4.
         bind (statements_until n ENDIF (s4\<lparr>emitter := emit_line ''){'' (emitter s4)\<rparr>)) (\<lambda>s5.
         bind (match ENDIF s5) (\<lambda>s6.
           ok (s6\<lparr>emitter := emit_line ''}'' (emitter s6)\<rparr>)))))))
       else if check_token WHILE s then
         bind (next_token s) (\<lambda>s1.
         bind (comparison n (s1\<lparr>emitter := emit ''while('' (emitter s1)\<rparr>)) (\<lambda>s2.
         bind (match REPEAT s2) (\<lambda>s3.
         bind (nl n s3) (\<lambda>s4.
         bind (statements_until n ENDWHILE (s4\<lparr>emitter := emit_line ''){'' (emitter s4)\<rparr>))
           (\<lambda>s5.
         bind (match ENDWHILE s5) (\<lambda>s6.
           ok (s6\<lparr>emitter := emit_line ''}'' (emitter s6)\<rparr>)))))))
       else if check_token LABEL s then
         bind (next_token s) (\<lambda>s1.
           if text (current_token s1) \<in> labels_declared s1 then
             Parser_abort (Label_already_exists (text (current_token s1)))
           else
             match IDENT (s1\<lparr>labels_declared := insert (text (current_token s1)) (labels_declared s1),
                              emitter := emit_line (text (current_token s1) @ '':'') (emitter s1)\<rparr>))
       else if check_token GOTO s then
         bind (next_token s) (\<lambda>s1.
           match IDENT (s1\<lparr>labels_gotoed := insert (text (current_token s1)) (labels_gotoed s1),
                            emitter := emit_line (''goto '' @ text (current_token s1) @ '';'')
                                         (emitter s1)\<rparr>))
       else if check_token LET s then
         bind (next_token s) (\<lambda>s1.
           (let s2 = (if text (current_token s1) \<notin> symbols s1 then
                        s1\<lparr>symbols := insert (text (current_token s1)) (symbols s1),
                           emitter := header_line (''float '' @ text (current_token s1) @ '';'')
                                        (emitter s1)\<rparr>
                      else s1) in
            bind (match IDENT (s2\<lparr>emitter :=
                    emit (text (current_token s2) @ '' = '') (emitter s2)\<rparr>)) (\<lambda>s3.
            bind (match EQ s3) (\<lambda>s4.
            bind (expression n s4) (\<lambda>s5.
              ok (s5\<lparr>emitter := emit_line '';'' (emitter s5)\<rparr>))))))
       else if check_token INPUT s then
         bind (next_token s) (\<lambda>s1.
           (let s2 = (if text (current_token s1) \<notin> symbols s1 then
                        s1\<lparr>symbols := insert (text (current_token s1)) (symbols s1),
                           emitter := header_line (''float '' @ text (current_token s1) @ '';'')
                                        (emitter s1)\<rparr>
                      else s1) in
            match IDENT (s2\<lparr>emitter :=
              emit_line ''}''
             (emit_line (''*s");'')
             (emit (''scanf("%'')
             (emit_line (text (current_token s2) @ '' = 0;'')
             (emit_line (''if(0 == scanf("%f", &'' @ text (current_token s2) @ '')) {'')
               (emitter s2)))))\<rparr>)))
       else
         Parser_abort (Invalid_statement_at (text (current_token s)) (kind (current_token s))))
      (nl n)\<close>
| \<open>statements_until 0 k s = None\<close>
| \<open>statements_until (Suc n) k s =
     (if \<not> check_token k s then bind (statement n s) (statements_until n k) else ok s)\<close>

text \<open>
  The final loop of \<^verbatim>\<open>program\<close> visits the members of the set \<^verbatim>\<open>labels_gotoed\<close> in
  the order in which the Python runtime iterates over it, which the language leaves open;
  that order is the parameter \<open>set_order\<close>. The loop aborts at the first member that is
  not declared.
\<close>

definition check_labels :: "(string set \<Rightarrow> string list) \<Rightarrow> Parser \<Rightarrow> Parser result" where
  "check_labels set_order s =
     (case find (\<lambda>label. label \<notin> labels_declared s) (set_order (labels_gotoed s)) of
        Some label \<Rightarrow> Parser_abort (Attempting_to_GOTO_an_undeclared_label label)
      | None \<Rightarrow> ok s)"

definition program :: "(string set \<Rightarrow> string list) \<Rightarrow> nat \<Rightarrow> Parser \<Rightarrow> Parser result" where
  "program set_order n s =
     (let s1 = s\<lparr>emitter := header_line ''int main(void){''
                               (header_line ''#include <stdio.h>'' (emitter s))\<rparr> in
      bind (skip_newlines n s1) (\<lambda>s2.
      bind (statements_until n EOF s2) (\<lambda>s3.
        check_labels set_order
          (s3\<lparr>emitter := emit_line ''}'' (emit_line ''return 0;'' (emitter s3))\<rparr>))))"

section \<open>Entry point (teenytiny.py)\<close>

text \<open>
  \<^verbatim>\<open>main\<close> on the contents of the source file: the text written to \<^verbatim>\<open>out.c\<close>. Reading
  the file and the messages on the console are left out.
\<close>

definition main :: "(string set \<Rightarrow> string list) \<Rightarrow> nat \<Rightarrow> string \<Rightarrow> string result" where
  "main set_order n input =
     (let lexer = Lexer_init input; em = Emitter_init ''out.c'' in
      bind (Parser_init lexer em) (\<lambda>parser.
      bind (program set_order n parser) (\<lambda>parser'.
        ok (write_file (emitter parser')))))"

section \<open>Notions used in the statements and proofs\<close>

text \<open>
  \<open>returns r Q\<close>: the computation \<open>r\<close> comes to an end, and if it ends with a value rather
  than an error, the value satisfies \<open>Q\<close>.
\<close>

definition returns :: "'a result \<Rightarrow> ('a \<Rightarrow> bool) \<Rightarrow> bool" where
  "returns r Q \<longleftrightarrow> (case r of None \<Rightarrow> False | Some (Inl e) \<Rightarrow> True | Some (Inr x) \<Rightarrow> Q x)"

text \<open>
  The lexer's state as its constructor and \<^verbatim>\<open>next_char\<close> keep it: the source ends with
  the appended newline, \<^verbatim>\<open>source_len\<close> is its length, the cursor is not negative, and
  \<^verbatim>\<open>char\<close> is the character under the cursor or \<^verbatim>\<open>"\0"\<close> past the end.
\<close>

definition lexer_inv :: "Lexer \<Rightarrow> bool" where
  "lexer_inv l \<longleftrightarrow>
     source l \<noteq> [] \<and> last (source l) = CHR 0x0A \<and> source_len l = int (length (source l)) \<and>
     0 \<le> pos l \<and>
     char l = (if source_len l \<le> pos l then CHR 0x00 else source l ! nat (pos l))"

definition moved :: "Lexer \<Rightarrow> Lexer \<Rightarrow> bool" where
  "moved l l' \<longleftrightarrow>
     lexer_inv l' \<and> source l' = source l \<and> source_len l' = source_len l \<and> pos l \<le> pos l'"

text \<open>
  What \<^verbatim>\<open>get_token\<close> has done when it reaches its final \<^verbatim>\<open>next_char\<close>, started in \<open>l\<close>:
  the cursor has not gone back; it is still inside the source if it was and the token is
  not end-of-input; started past the end, nothing moved and the token is end-of-input.
\<close>

definition scanned :: "Lexer \<Rightarrow> Token \<times> Lexer \<Rightarrow> bool" where
  "scanned l = (\<lambda>(t, l'). moved l l' \<and>
     (pos l \<le> source_len l \<longrightarrow> pos l' \<le> source_len l) \<and>
     (kind t \<noteq> EOF \<longrightarrow> pos l' < source_len l) \<and>
     (source_len l \<le> pos l \<longrightarrow> kind t = EOF \<and> l' = l))"

text \<open>
  The parser's state between two of its steps: the lexer's invariant holds; the lexer has
  read at most two tokens beyond the end of the source, and then those tokens are
  end-of-input tokens. The set of jump targets is finite.
\<close>

definition parser_inv :: "Parser \<Rightarrow> bool" where
  "parser_inv s \<longleftrightarrow>
     lexer_inv (lex s) \<and> pos (lex s) \<le> source_len (lex s) + 2 \<and>
     (source_len (lex s) < pos (lex s) \<longrightarrow> kind (peek_token s) = EOF) \<and>
     (source_len (lex s) + 1 < pos (lex s) \<longrightarrow> kind (current_token s) = EOF) \<and>
     finite (labels_gotoed s)"

text \<open>The number of cursor positions the lexer has left, which bounds the work to come.\<close>

definition budget :: "Parser \<Rightarrow> int" where
  "budget s = source_len (lex s) + 3 - pos (lex s)"

definition kept :: "Parser \<Rightarrow> Parser \<Rightarrow> bool" where
  "kept s s' \<longleftrightarrow>
     parser_inv s' \<and> source (lex s') = source (lex s) \<and>
     source_len (lex s') = source_len (lex s) \<and> pos (lex s) \<le> pos (lex s')"

definition advanced :: "Parser \<Rightarrow> Parser \<Rightarrow> bool" where
  "advanced s s' \<longleftrightarrow>
     parser_inv s' \<and> source (lex s') = source (lex s) \<and>
     source_len (lex s') = source_len (lex s) \<and> pos (lex s) < pos (lex s')"

text \<open>\<open>settled a b\<close>: if the computation \<open>a\<close> comes to an end, \<open>b\<close> is the same.\<close>

definition settled :: "'a result \<Rightarrow> 'a result \<Rightarrow> bool" where
  "settled a b \<longleftrightarrow> a = None \<or> a = b"

text \<open>
  The invariant of the specification's data model: the offset is a valid index into the
  source or exactly its length.
\<close>

definition cursor_in_range :: "Lexer \<Rightarrow> bool" where
  "cursor_in_range l \<longleftrightarrow> 0 \<le> pos l \<and> pos l \<le> source_len l"

text \<open>
  \<open>spec r Q E\<close>: if the computation \<open>r\<close> ends with a value, the value satisfies \<open>Q\<close>; if
  it ends with an error, the error satisfies \<open>E\<close>.
\<close>

definition spec :: "'a result \<Rightarrow> ('a \<Rightarrow> bool) \<Rightarrow> (error \<Rightarrow> bool) \<Rightarrow> bool" where
  "spec r Q E \<longleftrightarrow> (case r of None \<Rightarrow> True | Some (Inl e) \<Rightarrow> E e | Some (Inr x) \<Rightarrow> Q x)"

definition lexical :: "error \<Rightarrow> bool" where
  "lexical e \<longleftrightarrow> (\<exists>m. e = Lexing_error m)"

text \<open>
  From \<open>s\<close> to \<open>s'\<close> the symbol table has only grown and the set of jump targets is
  still finite. An error raised from \<open>s\<close> on is not the one for an undeclared label, and
  if it is a reference before assignment, the identifier is not in the symbol table of \<open>s\<close>.
\<close>

definition grows :: "Parser \<Rightarrow> Parser \<Rightarrow> bool" where
  "grows s s' \<longleftrightarrow>
     symbols s \<subseteq> symbols s' \<and> (finite (labels_gotoed s) \<longrightarrow> finite (labels_gotoed s'))"

definition fault :: "Parser \<Rightarrow> error \<Rightarrow> bool" where
  "fault s e \<longleftrightarrow>
     (\<forall>label. e \<noteq> Error (Attempting_to_GOTO_an_undeclared_label label)) \<and>
     (\<forall>x. e = Error (Referencing_variable_before_assignment x) \<longrightarrow> x \<notin> symbols s)"

text \<open>
  \<^verbatim>\<open>program\<close> up to its final loop: the opening scaffolding, the statements, the closing
  scaffolding.
\<close>

definition parsed :: "nat \<Rightarrow> Parser \<Rightarrow> Parser result" where
  "parsed n s =
     (let s1 = s\<lparr>emitter := header_line ''int main(void){''
                               (header_line ''#include <stdio.h>'' (emitter s))\<rparr> in
      bind (skip_newlines n s1) (\<lambda>s2.
      bind (statements_until n EOF s2) (\<lambda>s3.
        ok (s3\<lparr>emitter := emit_line ''}'' (emit_line ''return 0;'' (emitter s3))\<rparr>))))"

section \<open>Results, and the lexer's invariant\<close>

lemma bind_ok [simp]: "bind (ok x) f = f x"
  by (simp add: bind_def ok_def)

lemma bind_exit [simp]: "bind (exit_with e) f = exit_with e"
  by (simp add: bind_def exit_with_def)

lemma bind_None [simp]: "bind None f = None"
  by (simp add: bind_def)

lemma returns_ok [simp]: "returns (ok x) Q = Q x"
  by (simp add: returns_def ok_def)

lemma returns_exit [simp]: "returns (exit_with e) Q"
  by (simp add: returns_def exit_with_def)

lemma returns_None [simp]: "\<not> returns None Q"
  by (simp add: returns_def)

lemma returns_bind:
  assumes "returns m P" and "\<And>x. P x \<Longrightarrow> returns (f x) Q"
  shows "returns (bind m f) Q"
proof (cases m)
  case None
  with assms(1) show ?thesis by (simp add: returns_def)
next
  case (Some x)
  show ?thesis
  proof (cases x)
    case (Inl e)
    with Some show ?thesis by (simp add: returns_def bind_def)
  next
    case (Inr a)
    with Some assms(1) have "P a" by (simp add: returns_def)
    then have "returns (f a) Q" by (rule assms(2))
    with Some Inr show ?thesis by (simp add: bind_def)
  qed
qed

lemma returns_weaken:
  assumes "returns r P" and "\<And>x. P x \<Longrightarrow> Q x"
  shows "returns r Q"
proof -
  have "returns (bind r ok) Q"
    using assms(1) by (rule returns_bind) (simp add: assms(2))
  moreover have "bind r ok = r"
    by (simp add: bind_def ok_def split: option.splits sum.splits)
  ultimately show ?thesis by simp
qed

lemma returns_Some: "returns r Q \<Longrightarrow> \<exists>x. r = Some x"
  by (auto simp: returns_def split: option.splits)

lemma returns_Inr: "returns r Q \<Longrightarrow> r = Some (Inr x) \<Longrightarrow> Q x"
  by (simp add: returns_def)

lemma Lexer_init_inv: "lexer_inv (Lexer_init input)"
  by (simp add: Lexer_init_def next_char_def lexer_inv_def Let_def)

lemma Lexer_init_pos: "pos (Lexer_init input) = 0"
  by (simp add: Lexer_init_def next_char_def Let_def)

lemma Lexer_init_source: "source (Lexer_init input) = input @ [CHR 0x0A]"
  by (simp add: Lexer_init_def next_char_def Let_def)

lemma next_char_simps [simp]:
  "pos (next_char l) = pos l + 1" "source (next_char l) = source l"
  "source_len (next_char l) = source_len l"
  by (simp_all add: next_char_def Let_def)

lemma next_char_inv: "lexer_inv l \<Longrightarrow> lexer_inv (next_char l)"
  by (simp add: next_char_def lexer_inv_def Let_def)

lemma moved_refl: "lexer_inv l \<Longrightarrow> moved l l"
  by (simp add: moved_def)

lemma moved_trans: "moved l l1 \<Longrightarrow> moved l1 l2 \<Longrightarrow> moved l l2"
  by (simp add: moved_def)

lemma moved_next: "lexer_inv l \<Longrightarrow> moved l (next_char l)"
  by (simp add: moved_def next_char_inv)

lemma moved_next_left: "moved (next_char l) l' \<Longrightarrow> moved l l'"
  by (simp add: moved_def)

lemma char_inside: "lexer_inv l \<Longrightarrow> char l \<noteq> CHR 0x00 \<Longrightarrow> pos l < source_len l"
  by (auto simp: lexer_inv_def split: if_splits)

lemma not_last:
  assumes "lexer_inv l" "pos l < source_len l" "char l \<noteq> CHR 0x0A"
  shows "pos l + 1 < source_len l"
proof -
  have ne: "source l \<noteq> []" and nl: "last (source l) = CHR 0x0A"
    and len: "source_len l = int (length (source l))" and p0: "0 \<le> pos l"
    using assms(1) by (simp_all add: lexer_inv_def)
  have c: "char l = source l ! nat (pos l)"
    using assms(1,2) by (simp add: lexer_inv_def)
  have "pos l \<noteq> source_len l - 1"
  proof
    assume "pos l = source_len l - 1"
    with len p0 have "nat (pos l) = length (source l) - 1" by simp
    with c have "char l = source l ! (length (source l) - 1)" by simp
    also have "\<dots> = last (source l)" using ne by (simp add: last_conv_nth)
    finally show False using nl assms(3) by simp
  qed
  with assms(2) show ?thesis by simp
qed

lemma skip_whitespace_inv:
  assumes "lexer_inv l"
  shows "returns (skip_whitespace l) (\<lambda>l'. moved l l' \<and>
           (pos l \<le> source_len l \<longrightarrow> pos l' \<le> source_len l) \<and>
           (source_len l \<le> pos l \<longrightarrow> l' = l))"
  using assms
proof (induction "nat (source_len l - pos l)" arbitrary: l rule: less_induct)
  case less
  show ?case
  proof (cases "char l \<in> set [CHR 0x20, CHR 0x09, CHR 0x0D]")
    case False
    then have "skip_whitespace l = ok l" by (subst skip_whitespace.simps) simp
    with less.prems show ?thesis by (simp add: moved_refl)
  next
    case True
    then have eq: "skip_whitespace l = skip_whitespace (next_char l)"
      by (subst skip_whitespace.simps) simp
    from True have "char l \<noteq> CHR 0x00" by auto
    with less.prems have lt: "pos l < source_len l" by (rule char_inside)
    have inv1: "lexer_inv (next_char l)" using less.prems by (rule next_char_inv)
    from lt have "nat (source_len (next_char l) - pos (next_char l)) < nat (source_len l - pos l)"
      by simp
    from less.hyps [OF this inv1] show ?thesis
      unfolding eq by (rule returns_weaken) (use lt in \<open>simp add: moved_def\<close>)
  qed
qed

lemma skip_comment_loop_inv:
  assumes "lexer_inv l" "pos l < source_len l"
  shows "returns (skip_comment_loop l) (\<lambda>l'. moved l l' \<and> pos l' < source_len l)"
  using assms
proof (induction "nat (source_len l - pos l)" arbitrary: l rule: less_induct)
  case less
  show ?case
  proof (cases "char l \<noteq> CHR 0x0A")
    case False
    then have "skip_comment_loop l = ok l" by (subst skip_comment_loop.simps) simp
    with less.prems show ?thesis by (simp add: moved_refl)
  next
    case True
    then have eq: "skip_comment_loop l = skip_comment_loop (next_char l)"
      by (subst skip_comment_loop.simps) simp
    from less.prems True have lt: "pos l + 1 < source_len l" by (simp add: not_last)
    have inv1: "lexer_inv (next_char l)" using less.prems by (simp add: next_char_inv)
    from lt have m: "nat (source_len (next_char l) - pos (next_char l)) < nat (source_len l - pos l)"
      by simp
    from lt have "pos (next_char l) < source_len (next_char l)" by simp
    from less.hyps [OF m inv1 this] show ?thesis
      unfolding eq by (rule returns_weaken) (simp add: moved_def)
  qed
qed

lemma skip_comment_inv:
  assumes "lexer_inv l"
  shows "returns (skip_comment l) (\<lambda>l'. moved l l' \<and>
           (pos l \<le> source_len l \<longrightarrow> pos l' \<le> source_len l) \<and>
           (source_len l \<le> pos l \<longrightarrow> l' = l))"
proof (cases "char l = CHR ''#''")
  case False
  with assms show ?thesis by (simp add: skip_comment_def moved_refl)
next
  case True
  then have "char l \<noteq> CHR 0x00" by simp
  with assms have lt: "pos l < source_len l" by (simp add: char_inside)
  from skip_comment_loop_inv [OF assms lt]
  have "returns (skip_comment_loop l) (\<lambda>l'. moved l l' \<and>
           (pos l \<le> source_len l \<longrightarrow> pos l' \<le> source_len l) \<and>
           (source_len l \<le> pos l \<longrightarrow> l' = l))"
    by (rule returns_weaken) (use lt in simp)
  with True show ?thesis by (simp add: skip_comment_def)
qed

lemma string_loop_inv:
  assumes "lexer_inv l" "pos l < source_len l"
  shows "returns (string_loop l) (\<lambda>l'. moved l l' \<and> pos l' < source_len l)"
  using assms
proof (induction "nat (source_len l - pos l)" arbitrary: l rule: less_induct)
  case less
  show ?case
  proof (cases "char l \<noteq> CHR 0x22")
    case False
    then have "string_loop l = ok l" by (subst string_loop.simps) simp
    with less.prems show ?thesis by (simp add: moved_refl)
  next
    case True
    show ?thesis
    proof (cases "[char l] \<in> set [[CHR 0x0D], [CHR 0x09], [CHR 0x0A], ''//'', ''%'']")
      case ill: True
      with True have "string_loop l = Lexer_abort Illegal_character_in_string"
        by (subst string_loop.simps) simp
      then show ?thesis by (simp add: Lexer_abort_def)
    next
      case legal: False
      with True have eq: "string_loop l = string_loop (next_char l)"
        by (subst string_loop.simps) simp
      from legal have "char l \<noteq> CHR 0x0A" by simp
      with less.prems have lt: "pos l + 1 < source_len l" by (simp add: not_last)
      have inv1: "lexer_inv (next_char l)" using less.prems by (simp add: next_char_inv)
      from lt have m: "nat (source_len (next_char l) - pos (next_char l)) < nat (source_len l - pos l)"
        by simp
      from lt have "pos (next_char l) < source_len (next_char l)" by simp
      from less.hyps [OF m inv1 this] show ?thesis
        unfolding eq by (rule returns_weaken) (simp add: moved_def)
    qed
  qed
qed

lemma isdigit_peek: "isdigit (peek l) \<Longrightarrow> pos l + 1 < source_len l"
  by (auto simp: peek_def isdigit_def split: if_splits)

lemma isalnum_peek: "isalnum (peek l) \<Longrightarrow> pos l + 1 < source_len l"
  by (auto simp: peek_def isalnum_def isalpha_def isdigit_def split: if_splits)

lemma digits_loop_inv:
  assumes "lexer_inv l"
  shows "returns (digits_loop l) (\<lambda>l'. moved l l' \<and>
           (pos l < source_len l \<longrightarrow> pos l' < source_len l))"
  using assms
proof (induction "nat (source_len l - pos l)" arbitrary: l rule: less_induct)
  case less
  show ?case
  proof (cases "isdigit (peek l)")
    case False
    then have "digits_loop l = ok l" by (subst digits_loop.simps) simp
    with less.prems show ?thesis by (simp add: moved_refl)
  next
    case True
    then have eq: "digits_loop l = digits_loop (next_char l)"
      by (subst digits_loop.simps) simp
    from True have lt: "pos l + 1 < source_len l" by (rule isdigit_peek)
    have inv1: "lexer_inv (next_char l)" using less.prems by (simp add: next_char_inv)
    from lt have m: "nat (source_len (next_char l) - pos (next_char l)) < nat (source_len l - pos l)"
      by simp
    from less.hyps [OF m inv1] show ?thesis
      unfolding eq by (rule returns_weaken) (use lt in \<open>simp add: moved_def\<close>)
  qed
qed

lemma alnum_loop_inv:
  assumes "lexer_inv l"
  shows "returns (alnum_loop l) (\<lambda>l'. moved l l' \<and>
           (pos l < source_len l \<longrightarrow> pos l' < source_len l))"
  using assms
proof (induction "nat (source_len l - pos l)" arbitrary: l rule: less_induct)
  case less
  show ?case
  proof (cases "isalnum (peek l)")
    case False
    then have "alnum_loop l = ok l" by (subst alnum_loop.simps) simp
    with less.prems show ?thesis by (simp add: moved_refl)
  next
    case True
    then have eq: "alnum_loop l = alnum_loop (next_char l)"
      by (subst alnum_loop.simps) simp
    from True have lt: "pos l + 1 < source_len l" by (rule isalnum_peek)
    have inv1: "lexer_inv (next_char l)" using less.prems by (simp add: next_char_inv)
    from lt have m: "nat (source_len (next_char l) - pos (next_char l)) < nat (source_len l - pos l)"
      by simp
    from less.hyps [OF m inv1] show ?thesis
      unfolding eq by (rule returns_weaken) (use lt in \<open>simp add: moved_def\<close>)
  qed
qed

lemma scanned_here: "lexer_inv l \<Longrightarrow> char l \<noteq> CHR 0x00 \<Longrightarrow> scanned l (t, l)"
  using char_inside [of l] by (simp add: scanned_def moved_refl)

lemma scanned_eof: "lexer_inv l \<Longrightarrow> kind t = EOF \<Longrightarrow> scanned l (t, l)"
  by (simp add: scanned_def moved_refl)

lemma scanned_next:
  "lexer_inv l \<Longrightarrow> peek l = CHR ''='' \<Longrightarrow> scanned l (t, next_char l)"
  by (auto simp: scanned_def moved_next peek_def split: if_splits)

lemma scanned_string:
  assumes "lexer_inv l" "char l = CHR 0x22"
  shows "returns (bind (string_loop (next_char l)) (\<lambda>l2. ok (f l2, l2))) (scanned l)"
proof -
  from assms have lt0: "pos l < source_len l" by (simp add: char_inside)
  with assms have lt: "pos l + 1 < source_len l" by (simp add: not_last)
  have inv1: "lexer_inv (next_char l)" using assms by (simp add: next_char_inv)
  from lt have "pos (next_char l) < source_len (next_char l)" by simp
  from string_loop_inv [OF inv1 this] show ?thesis
    by (rule returns_bind) (use lt0 in \<open>simp add: scanned_def moved_def\<close>)
qed

lemma isdigit_NUL [simp]: "\<not> isdigit (CHR 0x00)"
  by (simp add: isdigit_def)

lemma isalpha_NUL [simp]: "\<not> isalpha (CHR 0x00)"
  by (simp add: isalpha_def)

lemma scanned_number:
  assumes "lexer_inv l" "isdigit (char l)"
  shows "returns (bind (digits_loop l) (\<lambda>l1.
        bind (if peek l1 = CHR ''.'' then
                (let l2 = next_char l1 in
                 if \<not> isdigit (peek l2) then Lexer_abort (Illegal_character_in_number (pos l2))
                 else digits_loop l2)
              else ok l1) (\<lambda>l3. ok (f l3, l3)))) (scanned l)"
proof -
  from assms have "char l \<noteq> CHR 0x00" by auto
  with assms have lt: "pos l < source_len l" by (simp add: char_inside)
  have fin: "\<And>l3. moved l l3 \<Longrightarrow> pos l3 < source_len l \<Longrightarrow> scanned l (f l3, l3)"
    using lt by (simp add: scanned_def)
  from digits_loop_inv [OF assms(1)] show ?thesis
  proof (rule returns_bind)
    fix l1
    assume "moved l l1 \<and> (pos l < source_len l \<longrightarrow> pos l1 < source_len l)"
    with lt have m1: "moved l l1" and lt1: "pos l1 < source_len l" by simp_all
    then have inv1: "lexer_inv l1" and len1: "source_len l1 = source_len l"
      by (simp_all add: moved_def)
    show "returns (bind (if peek l1 = CHR ''.'' then
                (let l2 = next_char l1 in
                 if \<not> isdigit (peek l2) then Lexer_abort (Illegal_character_in_number (pos l2))
                 else digits_loop l2)
              else ok l1) (\<lambda>l3. ok (f l3, l3))) (scanned l)"
    proof (cases "peek l1 = CHR ''.''")
      case False
      with m1 lt1 show ?thesis by (simp add: fin)
    next
      case dot: True
      then have lt2: "pos l1 + 1 < source_len l1" by (auto simp: peek_def split: if_splits)
      have inv2: "lexer_inv (next_char l1)" using inv1 by (simp add: next_char_inv)
      show ?thesis
      proof (cases "isdigit (peek (next_char l1))")
        case False
        with dot show ?thesis by (simp add: Let_def Lexer_abort_def)
      next
        case True
        have "returns (bind (digits_loop (next_char l1)) (\<lambda>l3. ok (f l3, l3))) (scanned l)"
          using digits_loop_inv [OF inv2]
        proof (rule returns_bind)
          fix l3
          assume "moved (next_char l1) l3 \<and>
             (pos (next_char l1) < source_len (next_char l1) \<longrightarrow> pos l3 < source_len (next_char l1))"
          with lt2 len1 m1 have "moved l l3" "pos l3 < source_len l"
            by (simp_all add: moved_def)
          then show "returns (ok (f l3, l3)) (scanned l)" by (simp add: fin)
        qed
        with True dot show ?thesis by (simp add: Let_def)
      qed
    qed
  qed
qed

lemma scanned_ident:
  assumes "lexer_inv l" "isalpha (char l)"
  shows "returns (bind (alnum_loop l) (\<lambda>l1. ok (f l1, l1))) (scanned l)"
proof -
  from assms have "char l \<noteq> CHR 0x00" by auto
  with assms have lt: "pos l < source_len l" by (simp add: char_inside)
  from alnum_loop_inv [OF assms(1)] show ?thesis
    by (rule returns_bind) (use lt in \<open>simp add: scanned_def\<close>)
qed

lemma ident_token:
  "(let text = tx; keyword = is_keyword text in
      case keyword of None \<Rightarrow> ok (\<lparr>text = text, kind = IDENT\<rparr>, l1)
      | Some k \<Rightarrow> ok (\<lparr>text = text, kind = k\<rparr>, l1)) =
   ok (\<lparr>text = tx, kind = (case is_keyword tx of None \<Rightarrow> IDENT | Some k \<Rightarrow> k)\<rparr>, l1)"
  by (simp add: Let_def split: option.splits)

lemma scan_token_inv:
  assumes "lexer_inv l"
  shows "returns (scan_token l) (scanned l)"
  unfolding scan_token_def ident_token
  using assms
  by (simp add: Lexer_abort_def scanned_here scanned_eof scanned_next scanned_string
                   scanned_number scanned_ident Let_def)

lemma get_token_inv:
  assumes "lexer_inv l"
  shows "returns (get_token l) (\<lambda>(t, l'). \<exists>l3. l' = next_char l3 \<and> scanned l (t, l3))"
  unfolding get_token_def
  using skip_whitespace_inv [OF assms]
proof (rule returns_bind)
  fix l1
  assume a1: "moved l l1 \<and> (pos l \<le> source_len l \<longrightarrow> pos l1 \<le> source_len l) \<and>
           (source_len l \<le> pos l \<longrightarrow> l1 = l)"
  then have inv1: "lexer_inv l1" by (simp add: moved_def)
  show "returns (bind (skip_comment l1) (\<lambda>l2. bind (scan_token l2) (\<lambda>(token, l3).
       ok (token, next_char l3)))) (\<lambda>(t, l'). \<exists>l3. l' = next_char l3 \<and> scanned l (t, l3))"
    using skip_comment_inv [OF inv1]
  proof (rule returns_bind)
    fix l2
    assume a2: "moved l1 l2 \<and> (pos l1 \<le> source_len l1 \<longrightarrow> pos l2 \<le> source_len l1) \<and>
           (source_len l1 \<le> pos l1 \<longrightarrow> l2 = l1)"
    then have inv2: "lexer_inv l2" by (simp add: moved_def)
    show "returns (bind (scan_token l2) (\<lambda>(token, l3).
       ok (token, next_char l3))) (\<lambda>(t, l'). \<exists>l3. l' = next_char l3 \<and> scanned l (t, l3))"
      using scan_token_inv [OF inv2]
    proof (rule returns_bind)
      fix x
      assume a3: "scanned l2 x"
      obtain t l3 where x: "x = (t, l3)" by (cases x)
      from a1 a2 a3 x have "scanned l (t, l3)"
        by (auto simp: scanned_def moved_def)
      with x show "returns (case x of (token, l3) \<Rightarrow> ok (token, next_char l3))
         (\<lambda>(t, l'). \<exists>l3. l' = next_char l3 \<and> scanned l (t, l3))"
        by auto
    qed
  qed
qed

lemma Lexer_init_len: "source_len (Lexer_init input) = int (length input) + 1"
  by (simp add: Lexer_init_def next_char_def Let_def)

lemma skip_whitespace_other:
  "char l \<notin> set [CHR 0x20, CHR 0x09, CHR 0x0D] \<Longrightarrow> skip_whitespace l = ok l"
  by (subst skip_whitespace.simps) simp

lemma string_loop_unterminated:
  assumes "lexer_inv l" "pos l < source_len l" "CHR 0x22 \<notin> set (drop (nat (pos l)) (source l))"
  shows "string_loop l = Lexer_abort Illegal_character_in_string"
  using assms
proof (induction "nat (source_len l - pos l)" arbitrary: l rule: less_induct)
  case less
  from less.prems(1,2) have n: "nat (pos l) < length (source l)"
    and c: "char l = source l ! nat (pos l)"
    by (simp_all add: lexer_inv_def nat_less_iff)
  from n have "source l ! nat (pos l) \<in> set (drop (nat (pos l)) (source l))"
    by (simp add: Cons_nth_drop_Suc [symmetric])
  with c less.prems(3) have nq: "char l \<noteq> CHR 0x22" by auto
  show ?case
  proof (cases "[char l] \<in> set [[CHR 0x0D], [CHR 0x09], [CHR 0x0A], ''//'', ''%'']")
    case True
    with nq show ?thesis by (subst string_loop.simps) simp
  next
    case False
    with nq have eq: "string_loop l = string_loop (next_char l)"
      by (subst string_loop.simps) simp
    from False have "char l \<noteq> CHR 0x0A" by simp
    with less.prems have lt: "pos l + 1 < source_len l" by (simp add: not_last)
    have inv1: "lexer_inv (next_char l)" using less.prems by (simp add: next_char_inv)
    from lt have m: "nat (source_len (next_char l) - pos (next_char l)) < nat (source_len l - pos l)"
      by simp
    from lt have lt1: "pos (next_char l) < source_len (next_char l)" by simp
    have "set (drop (nat (pos l + 1)) (source l)) \<subseteq> set (drop (nat (pos l)) (source l))"
      by (rule set_drop_subset_set_drop) simp
    with less.prems(3) have "CHR 0x22 \<notin> set (drop (nat (pos (next_char l))) (source (next_char l)))"
      by auto
    from less.hyps [OF m inv1 lt1 this] eq show ?thesis by simp
  qed
qed

section \<open>The parser's invariant and its progress\<close>

lemma parser_inv_update [simp]:
  "parser_inv (s\<lparr>emitter := e\<rparr>) = parser_inv s"
  "parser_inv (s\<lparr>symbols := sy\<rparr>) = parser_inv s"
  "parser_inv (s\<lparr>labels_declared := ld\<rparr>) = parser_inv s"
  "parser_inv (s\<lparr>labels_gotoed := insert x (labels_gotoed s)\<rparr>) = parser_inv s"
  by (simp_all add: parser_inv_def)

lemma advanced_update [simp]:
  "advanced (s\<lparr>emitter := e\<rparr>) = advanced s"
  "advanced (s\<lparr>symbols := sy\<rparr>) = advanced s"
  "advanced (s\<lparr>labels_declared := ld\<rparr>) = advanced s"
  "advanced (s\<lparr>labels_gotoed := lg\<rparr>) = advanced s"
  "advanced s (s'\<lparr>emitter := e\<rparr>) = advanced s s'"
  by (simp_all add: advanced_def fun_eq_iff)

lemma kept_update [simp]:
  "kept (s\<lparr>emitter := e\<rparr>) = kept s"
  "kept s (s'\<lparr>emitter := e\<rparr>) = kept s s'"
  by (simp_all add: kept_def fun_eq_iff)

lemma budget_update [simp]:
  "budget (s\<lparr>emitter := e\<rparr>) = budget s"
  "budget (s\<lparr>symbols := sy\<rparr>) = budget s"
  "budget (s\<lparr>labels_declared := ld\<rparr>) = budget s"
  "budget (s\<lparr>labels_gotoed := lg\<rparr>) = budget s"
  by (simp_all add: budget_def)

lemma check_token_update [simp]:
  "check_token k (s\<lparr>emitter := e\<rparr>) = check_token k s"
  "is_comparison_op (s\<lparr>emitter := e\<rparr>) = is_comparison_op s"
  by (simp_all add: check_token_def is_comparison_op_def)

lemma kept_refl: "parser_inv s \<Longrightarrow> kept s s"
  by (simp add: kept_def)

lemma advanced_kept: "advanced s s' \<Longrightarrow> kept s s'"
  by (simp add: advanced_def kept_def)

lemma advanced_trans: "advanced s s1 \<Longrightarrow> kept s1 s2 \<Longrightarrow> advanced s s2"
  by (simp add: advanced_def kept_def)

lemma kept_advanced: "kept s s1 \<Longrightarrow> advanced s1 s2 \<Longrightarrow> advanced s s2"
  by (simp add: advanced_def kept_def)

lemma kept_trans: "kept s s1 \<Longrightarrow> kept s1 s2 \<Longrightarrow> kept s s2"
  by (simp add: kept_def)

lemma advanced_inv: "advanced s s' \<Longrightarrow> parser_inv s'"
  by (simp add: advanced_def)

lemma kept_inv: "kept s s' \<Longrightarrow> parser_inv s'"
  by (simp add: kept_def)

lemma advanced_budget: "advanced s s' \<Longrightarrow> budget s' < budget s"
  by (simp add: advanced_def budget_def)

lemma kept_budget: "kept s s' \<Longrightarrow> budget s' \<le> budget s"
  by (simp add: kept_def budget_def)

lemma budget_pos: "parser_inv s \<Longrightarrow> 1 \<le> budget s"
  by (simp add: parser_inv_def budget_def)

lemma next_token_adv':
  assumes "parser_inv s" "pos (lex s) \<le> source_len (lex s) + 1"
  shows "returns (next_token s) (advanced s)"
  unfolding next_token_def
proof (rule returns_bind [OF get_token_inv])
  show "lexer_inv (lex s)" using assms by (simp add: parser_inv_def)
next
  fix x
  assume a: "case x of (t, l') \<Rightarrow> \<exists>l3. l' = next_char l3 \<and> scanned (lex s) (t, l3)"
  obtain t l' where x: "x = (t, l')" by (cases x)
  with a obtain l3 where l3: "l' = next_char l3" "scanned (lex s) (t, l3)" by auto
  have "advanced s (s\<lparr>current_token := peek_token s, peek_token := t, lex := next_char l3\<rparr>)"
    using assms l3(2)
    by (auto simp: advanced_def parser_inv_def scanned_def moved_def next_char_inv)
  with x l3 show "returns (case x of (t, l) \<Rightarrow>
      ok (s\<lparr>current_token := peek_token s, peek_token := t, lex := l\<rparr>)) (advanced s)"
    by simp
qed

lemma next_token_adv:
  assumes "parser_inv s" "kind (current_token s) \<noteq> EOF"
  shows "returns (next_token s) (advanced s)"
  using assms by (intro next_token_adv') (auto simp: parser_inv_def)

lemma match_adv:
  assumes "parser_inv s" "k \<noteq> EOF"
  shows "returns (match k s) (advanced s)"
  using assms by (auto simp: match_def Parser_abort_def check_token_def intro: next_token_adv)

lemma skip_newlines_kept:
  "parser_inv s \<Longrightarrow> budget s \<le> int n \<Longrightarrow> returns (skip_newlines n s) (kept s)"
proof (induction n arbitrary: s)
  case 0
  then show ?case using budget_pos [of s] by simp
next
  case (Suc n)
  show ?case
  proof (cases "check_token NEWLINE s")
    case False
    with Suc.prems show ?thesis by (simp add: kept_refl)
  next
    case True
    then have "kind (current_token s) \<noteq> EOF" by (simp add: check_token_def)
    with Suc.prems have "returns (next_token s) (advanced s)" by (simp add: next_token_adv)
    then have "returns (bind (next_token s) (skip_newlines n)) (kept s)"
    proof (rule returns_bind)
      fix s1
      assume a: "advanced s s1"
      with Suc.prems have "budget s1 \<le> int n" using advanced_budget [OF a] by simp
      with a have "returns (skip_newlines n s1) (kept s1)"
        by (intro Suc.IH) (simp_all add: advanced_inv)
      then show "returns (skip_newlines n s1) (kept s)"
        by (rule returns_weaken) (use a in \<open>auto intro: kept_trans advanced_kept\<close>)
    qed
    with True show ?thesis by simp
  qed
qed

lemma nl_adv:
  assumes "parser_inv s" "budget s \<le> int n"
  shows "returns (nl n s) (advanced s)"
  unfolding nl_def
proof (rule returns_bind [OF match_adv])
  fix s1
  assume a: "advanced s s1"
  with assms have "budget s1 \<le> int n" using advanced_budget [OF a] by simp
  with a have "returns (skip_newlines n s1) (kept s1)"
    by (intro skip_newlines_kept) (simp_all add: advanced_inv)
  then show "returns (skip_newlines n s1) (advanced s)"
    by (rule returns_weaken) (use a in \<open>auto intro: advanced_trans\<close>)
qed (use assms in simp_all)

lemma primary_adv:
  assumes "parser_inv s"
  shows "returns (primary s) (advanced s)"
proof -
  have "check_token NUMBER s \<or> check_token IDENT s \<Longrightarrow>
     returns (next_token (s\<lparr>emitter := emit (text (current_token s)) (emitter s)\<rparr>)) (advanced s)"
    using next_token_adv [of "s\<lparr>emitter := emit (text (current_token s)) (emitter s)\<rparr>"] assms
    by (auto simp: check_token_def)
  then show ?thesis by (simp add: primary_def Parser_abort_def)
qed

lemma emit_next_adv:
  assumes "parser_inv s" "kind (current_token s) \<noteq> EOF"
  shows "returns (next_token (s\<lparr>emitter := e\<rparr>)) (advanced s)"
  using next_token_adv [of "s\<lparr>emitter := e\<rparr>"] assms by simp

lemma unary_adv:
  assumes "parser_inv s"
  shows "returns (unary s) (advanced s)"
proof (cases "check_token PLUS s \<or> check_token MINUS s")
  case False
  with assms show ?thesis by (simp add: unary_def primary_adv)
next
  case True
  then have "kind (current_token s) \<noteq> EOF" by (auto simp: check_token_def)
  with assms have
    "returns (bind (next_token (s\<lparr>emitter := emit (text (current_token s)) (emitter s)\<rparr>)) primary)
       (advanced s)"
    by (intro returns_bind [OF emit_next_adv])
       (auto intro: returns_weaken [OF primary_adv] advanced_trans advanced_kept advanced_inv)
  with True show ?thesis by (simp add: unary_def)
qed

lemma returns_if:
  "(c \<Longrightarrow> returns a Q) \<Longrightarrow> (\<not> c \<Longrightarrow> returns b Q) \<Longrightarrow> returns (if c then a else b) Q"
  by simp

lemmas adv_defs = advanced_def kept_def budget_def check_token_def is_comparison_op_def

lemma term_loop_kept:
  "parser_inv s \<Longrightarrow> budget s \<le> int n \<Longrightarrow> returns (term_loop n s) (kept s)"
proof (induction n arbitrary: s)
  case 0
  then show ?case using budget_pos [of s] by simp
next
  case (Suc n)
  note IH = Suc.IH
  from Suc.prems show ?case
    apply (simp only: term_loop.simps)
    apply (rule returns_if)
     apply (rule returns_bind [OF emit_next_adv])
       apply (simp add: adv_defs)
      apply (auto simp: adv_defs)[1]
     apply (rule returns_bind [OF unary_adv])
      apply (simp add: adv_defs)
     apply (rule returns_weaken [OF IH])
       apply (simp_all add: adv_defs)
    done
qed

lemma term_adv:
  "parser_inv s \<Longrightarrow> budget s \<le> int n \<Longrightarrow> returns (term n s) (advanced s)"
  unfolding term_def
  apply (rule returns_bind [OF unary_adv])
   apply simp
  apply (rule returns_weaken [OF term_loop_kept])
    apply (simp_all add: adv_defs)
  done

lemma expression_loop_kept:
  "parser_inv s \<Longrightarrow> budget s \<le> int n \<Longrightarrow> returns (expression_loop n s) (kept s)"
proof (induction n arbitrary: s)
  case 0
  then show ?case using budget_pos [of s] by simp
next
  case (Suc n)
  note IH = Suc.IH
  from Suc.prems show ?case
    apply (simp only: expression_loop.simps)
    apply (rule returns_if)
     apply (rule returns_bind [OF emit_next_adv])
       apply (simp add: adv_defs)
      apply (auto simp: adv_defs)[1]
     apply (rule returns_bind [OF term_adv])
       apply (simp add: adv_defs)
      apply (simp add: adv_defs)
     apply (rule returns_weaken [OF IH])
       apply (simp_all add: adv_defs)
    done
qed

lemma expression_adv:
  "parser_inv s \<Longrightarrow> budget s \<le> int n \<Longrightarrow> returns (expression n s) (advanced s)"
  unfolding expression_def
  apply (rule returns_bind [OF term_adv])
    apply simp
   apply simp
  apply (rule returns_weaken [OF expression_loop_kept])
    apply (simp_all add: adv_defs)
  done

lemma comparison_op_not_EOF: "is_comparison_op s \<Longrightarrow> kind (current_token s) \<noteq> EOF"
  by (auto simp: is_comparison_op_def check_token_def)

lemma comparison_loop_kept:
  "parser_inv s \<Longrightarrow> budget s \<le> int n \<Longrightarrow> returns (comparison_loop n s) (kept s)"
proof (induction n arbitrary: s)
  case 0
  then show ?case using budget_pos [of s] by simp
next
  case (Suc n)
  note IH = Suc.IH
  from Suc.prems show ?case
    apply (simp only: comparison_loop.simps)
    apply (rule returns_if)
     apply (rule returns_bind [OF emit_next_adv])
       apply (simp add: adv_defs)
      apply (simp add: comparison_op_not_EOF)
     apply (rule returns_bind [OF expression_adv])
       apply (simp add: adv_defs)
      apply (simp add: adv_defs)
     apply (rule returns_weaken [OF IH])
       apply (simp_all add: adv_defs)
    done
qed

lemma comparison_adv:
  "parser_inv s \<Longrightarrow> budget s \<le> int n \<Longrightarrow> returns (comparison n s) (advanced s)"
  unfolding comparison_def
  apply (rule returns_bind [OF expression_adv])
    apply simp
   apply simp
  apply (rule returns_bind [where P = "advanced s"])
   apply (rule returns_if)
    apply (rule returns_bind [OF emit_next_adv])
      apply (simp add: adv_defs)
     apply (simp add: comparison_op_not_EOF)
    apply (rule returns_weaken [OF expression_adv])
      apply (simp add: adv_defs)
     apply (simp add: adv_defs)
    apply (simp add: adv_defs)
   apply (simp add: Parser_abort_def)
  apply (rule returns_weaken [OF comparison_loop_kept])
    apply (simp_all add: adv_defs)
  done

lemma statement_adv_aux:
  "(\<forall>s. parser_inv s \<longrightarrow> 2 * budget s \<le> int n \<longrightarrow> returns (statement n s) (advanced s)) \<and>
   (\<forall>s k. parser_inv s \<longrightarrow> 2 * budget s + 1 \<le> int n \<longrightarrow>
      returns (statements_until n k s) (kept s))"
proof (induction n)
  case 0
  show ?case by (auto dest: budget_pos)
next
  case (Suc n)
  then have IH1: "\<And>s. parser_inv s \<Longrightarrow> 2 * budget s \<le> int n \<Longrightarrow>
      returns (statement n s) (advanced s)"
    and IH2: "\<And>s k. parser_inv s \<Longrightarrow> 2 * budget s + 1 \<le> int n \<Longrightarrow>
      returns (statements_until n k s) (kept s)"
    by simp_all
  have 1: "returns (statement (Suc n) s) (advanced s)"
    if "parser_inv s" "2 * budget s \<le> int (Suc n)" for s
    using that
    apply (simp only: statement.simps)
    apply (rule returns_bind [where P = "advanced s"])
     apply (intro returns_if)
            apply ((rule conjI impI returns_if
                returns_bind [OF next_token_adv] returns_bind [OF match_adv]
                returns_bind [OF comparison_adv] returns_bind [OF expression_adv]
                returns_bind [OF nl_adv] returns_bind [OF IH2]
                returns_weaken [OF next_token_adv] returns_weaken [OF match_adv]
              | simp add: adv_defs Parser_abort_def Let_def split: if_split_asm)+)[8]
    apply (rule returns_weaken [OF nl_adv])
      apply (simp_all add: adv_defs)
    done
  have 2: "returns (statements_until (Suc n) k s) (kept s)"
    if "parser_inv s" "2 * budget s + 1 \<le> int (Suc n)" for s k
    using that
    apply (simp only: statements_until.simps)
    apply (rule returns_if)
     apply (rule returns_bind [OF IH1])
       apply simp
      apply simp
     apply (rule returns_weaken [OF IH2])
       apply (simp_all add: adv_defs kept_refl)
    done
  from 1 2 show ?case by blast
qed

lemma statement_adv:
  "parser_inv s \<Longrightarrow> 2 * budget s \<le> int n \<Longrightarrow> returns (statement n s) (advanced s)"
  using statement_adv_aux [of n] by simp

lemma statements_until_kept:
  "parser_inv s \<Longrightarrow> 2 * budget s + 1 \<le> int n \<Longrightarrow> returns (statements_until n k s) (kept s)"
  using statement_adv_aux [of n] by simp

lemma check_labels_returns: "returns (check_labels set_order s) (\<lambda>s'. s' = s)"
  by (simp add: check_labels_def Parser_abort_def split: option.splits)

lemma program_kept:
  "parser_inv s \<Longrightarrow> 2 * budget s + 1 \<le> int n \<Longrightarrow> returns (program set_order n s) (kept s)"
  unfolding program_def Let_def
  apply (rule returns_bind [OF skip_newlines_kept])
    apply simp
   apply simp
  apply (rule returns_bind [OF statements_until_kept])
    apply (simp add: adv_defs)
   apply (simp add: adv_defs)
  apply (rule returns_weaken [OF check_labels_returns])
  apply (simp add: adv_defs)
  done

lemma next_token_first:
  assumes "parser_inv s" "pos (lex s) \<le> source_len (lex s)"
  shows "returns (next_token s) (\<lambda>s'. advanced s s' \<and> pos (lex s') \<le> source_len (lex s') + 1)"
  unfolding next_token_def
proof (rule returns_bind [OF get_token_inv])
  show "lexer_inv (lex s)" using assms by (simp add: parser_inv_def)
next
  fix x
  assume a: "case x of (t, l') \<Rightarrow> \<exists>l3. l' = next_char l3 \<and> scanned (lex s) (t, l3)"
  obtain t l' where x: "x = (t, l')" by (cases x)
  with a obtain l3 where l3: "l' = next_char l3" "scanned (lex s) (t, l3)" by auto
  have "advanced s (s\<lparr>current_token := peek_token s, peek_token := t, lex := next_char l3\<rparr>)"
    using assms l3(2)
    by (auto simp: advanced_def parser_inv_def scanned_def moved_def next_char_inv)
  moreover have "pos l3 \<le> source_len l3"
    using assms l3(2) by (auto simp: scanned_def moved_def)
  ultimately show "returns (case x of (t, l) \<Rightarrow>
      ok (s\<lparr>current_token := peek_token s, peek_token := t, lex := l\<rparr>))
      (\<lambda>s'. advanced s s' \<and> pos (lex s') \<le> source_len (lex s') + 1)"
    using x l3 by simp
qed

lemma Parser_init_inv:
  "returns (Parser_init (Lexer_init input) em)
     (\<lambda>s. parser_inv s \<and> source (lex s) = input @ [CHR 0x0A] \<and> budget s \<le> int (length input) + 2)"
  unfolding Parser_init_def
  apply (rule returns_bind [OF next_token_first])
    apply (simp add: parser_inv_def Lexer_init_inv Lexer_init_pos Lexer_init_len)
   apply (simp add: Lexer_init_pos Lexer_init_len)
  apply (rule returns_weaken [OF next_token_adv'])
    apply (simp add: adv_defs)
   apply simp
  apply (simp add: adv_defs Lexer_init_pos Lexer_init_source Lexer_init_len)
  done

lemma main_returns:
  assumes "2 * length input + 5 \<le> n"
  shows "returns (main set_order n input) (\<lambda>out. True)"
  unfolding main_def Let_def
  apply (rule returns_bind [OF Parser_init_inv])
  apply (rule returns_bind [OF program_kept])
    apply simp
   apply (use assms in simp)
  apply simp
  done

section \<open>More iterations never change a result\<close>

lemma settled_refl [simp]: "settled a a"
  by (simp add: settled_def)

lemma settled_None [simp]: "settled None b"
  by (simp add: settled_def)

lemma settled_trans: "settled a b \<Longrightarrow> settled b c \<Longrightarrow> settled a c"
  by (auto simp: settled_def)

lemma settled_bind:
  "settled m m' \<Longrightarrow> (\<And>x. settled (f x) (f' x)) \<Longrightarrow> settled (bind m f) (bind m' f')"
  by (auto simp: settled_def bind_def split: option.splits sum.splits)

lemma settled_if:
  "(c \<Longrightarrow> settled a a') \<Longrightarrow> (\<not> c \<Longrightarrow> settled b b') \<Longrightarrow>
   settled (if c then a else b) (if c then a' else b')"
  by simp

lemma settled_Some: "settled a b \<Longrightarrow> a = Some r \<Longrightarrow> b = Some r"
  by (auto simp: settled_def)

lemma settled_le:
  assumes "\<And>n. settled (F n) (F (Suc n))" and "n \<le> m"
  shows "settled (F n) (F m)"
  using assms(2)
proof (induction m)
  case 0
  then show ?case by simp
next
  case (Suc m)
  show ?case
  proof (cases "n = Suc m")
    case True
    then show ?thesis by simp
  next
    case False
    with Suc.prems have "n \<le> m" by simp
    then have "settled (F n) (F m)" by (rule Suc.IH)
    then show ?thesis using assms(1) by (rule settled_trans)
  qed
qed

lemma skip_newlines_Suc: "settled (skip_newlines n s) (skip_newlines (Suc n) s)"
proof (induction n arbitrary: s)
  case 0
  show ?case by simp
next
  case (Suc n)
  show ?case
    apply (subst (1 2) skip_newlines.simps)
    apply (intro settled_if settled_bind Suc.IH settled_refl)
    done
qed

lemma nl_Suc: "settled (nl n s) (nl (Suc n) s)"
  unfolding nl_def by (intro settled_bind skip_newlines_Suc settled_refl)

lemma term_loop_Suc: "settled (term_loop n s) (term_loop (Suc n) s)"
proof (induction n arbitrary: s)
  case 0
  show ?case by simp
next
  case (Suc n)
  show ?case
    apply (subst (1 2) term_loop.simps)
    apply (intro settled_if settled_bind Suc.IH settled_refl)
    done
qed

lemma term_Suc: "settled (term n s) (term (Suc n) s)"
  unfolding term_def by (intro settled_bind term_loop_Suc settled_refl)

lemma expression_loop_Suc: "settled (expression_loop n s) (expression_loop (Suc n) s)"
proof (induction n arbitrary: s)
  case 0
  show ?case by simp
next
  case (Suc n)
  show ?case
    apply (subst (1 2) expression_loop.simps)
    apply (intro settled_if settled_bind Suc.IH term_Suc settled_refl)
    done
qed

lemma expression_Suc: "settled (expression n s) (expression (Suc n) s)"
  unfolding expression_def by (intro settled_bind expression_loop_Suc term_Suc settled_refl)

lemma comparison_loop_Suc: "settled (comparison_loop n s) (comparison_loop (Suc n) s)"
proof (induction n arbitrary: s)
  case 0
  show ?case by simp
next
  case (Suc n)
  show ?case
    apply (subst (1 2) comparison_loop.simps)
    apply (intro settled_if settled_bind Suc.IH expression_Suc settled_refl)
    done
qed

lemma comparison_Suc: "settled (comparison n s) (comparison (Suc n) s)"
  unfolding comparison_def
  by (intro settled_bind settled_if comparison_loop_Suc expression_Suc settled_refl)

lemma statement_Suc_aux:
  "(\<forall>s. settled (statement n s) (statement (Suc n) s)) \<and>
   (\<forall>s k. settled (statements_until n k s) (statements_until (Suc n) k s))"
proof (induction n)
  case 0
  show ?case by simp
next
  case (Suc n)
  then have IH1: "\<And>s. settled (statement n s) (statement (Suc n) s)"
    and IH2: "\<And>s k. settled (statements_until n k s) (statements_until (Suc n) k s)"
    by simp_all
  have 1: "settled (statement (Suc n) s) (statement (Suc (Suc n)) s)" for s
    apply (subst (1 2) statement.simps)
    apply (simp only: Let_def)
    apply (intro settled_if settled_bind IH2 nl_Suc comparison_Suc expression_Suc settled_refl)
    done
  have 2: "settled (statements_until (Suc n) k s) (statements_until (Suc (Suc n)) k s)" for s k
    apply (subst (1 2) statements_until.simps)
    apply (intro settled_if settled_bind IH1 IH2 settled_refl)
    done
  from 1 2 show ?case by blast
qed

lemma statements_until_Suc: "settled (statements_until n k s) (statements_until (Suc n) k s)"
  using statement_Suc_aux [of n] by simp

lemma statement_Suc: "settled (statement n s) (statement (Suc n) s)"
  using statement_Suc_aux [of n] by simp

lemma program_Suc: "settled (program set_order n s) (program set_order (Suc n) s)"
  unfolding program_def Let_def
  by (intro settled_bind skip_newlines_Suc statements_until_Suc settled_refl)

lemma main_Suc: "settled (main set_order n input) (main set_order (Suc n) input)"
  unfolding main_def Let_def
  by (intro settled_bind program_Suc settled_refl)

lemma main_fuel: "n \<le> m \<Longrightarrow> settled (main set_order n input) (main set_order m input)"
  by (rule settled_le [where F = "\<lambda>n. main set_order n input"]) (rule main_Suc)

lemma statement_fuel: "n \<le> m \<Longrightarrow> settled (statement n s) (statement m s)"
  by (rule settled_le [where F = "\<lambda>n. statement n s"]) (rule statement_Suc)

lemma program_fuel: "n \<le> m \<Longrightarrow> settled (program set_order n s) (program set_order m s)"
  by (rule settled_le [where F = "\<lambda>n. program set_order n s"]) (rule program_Suc)

section \<open>What the parser's rules keep, and which errors they raise\<close>

lemma spec_ok [simp]: "spec (ok x) Q E = Q x"
  by (simp add: spec_def ok_def)

lemma spec_exit [simp]: "spec (exit_with e) Q E = E e"
  by (simp add: spec_def exit_with_def)

lemma spec_None [simp]: "spec None Q E"
  by (simp add: spec_def)

lemma spec_bind:
  assumes "spec m P E" and "\<And>x. P x \<Longrightarrow> spec (f x) Q E"
  shows "spec (bind m f) Q E"
proof (cases m)
  case None
  then show ?thesis by simp
next
  case (Some x)
  show ?thesis
  proof (cases x)
    case (Inl e)
    with Some assms(1) show ?thesis by (simp add: spec_def bind_def)
  next
    case (Inr a)
    with Some assms(1) have "P a" by (simp add: spec_def)
    then have "spec (f a) Q E" by (rule assms(2))
    with Some Inr show ?thesis by (simp add: bind_def)
  qed
qed

lemma spec_weaken:
  assumes "spec r P E" and "\<And>x. P x \<Longrightarrow> Q x" and "\<And>e. E e \<Longrightarrow> E' e"
  shows "spec r Q E'"
  using assms by (auto simp: spec_def split: option.splits sum.splits)

lemma spec_if:
  "(c \<Longrightarrow> spec a Q E) \<Longrightarrow> (\<not> c \<Longrightarrow> spec b Q E) \<Longrightarrow> spec (if c then a else b) Q E"
  by simp

lemma spec_Inr: "spec r Q E \<Longrightarrow> r = ok x \<Longrightarrow> Q x"
  by (simp add: spec_def ok_def)

lemma spec_Inl: "spec r Q E \<Longrightarrow> r = exit_with e \<Longrightarrow> E e"
  by (simp add: spec_def exit_with_def)

lemma skip_whitespace_spec:
  "spec (skip_whitespace l) (\<lambda>l'. True) (\<lambda>e. False)"
proof (cases "skip_whitespace l")
  case None
  then show ?thesis by simp
next
  case (Some r)
  have "\<exists>l'. r = Inr l'"
  proof (rule skip_whitespace.raw_induct [where P = "\<lambda>l r. \<exists>l'. r = Inr l'", OF _ Some])
    fix f l r
    assume IH: "\<And>l r. f l = Some r \<Longrightarrow> \<exists>l'. r = Inr l'"
      and eq: "(if char l \<in> set [CHR 0x20, CHR 0x09, CHR 0x0D] then f (next_char l) else ok l) = Some r"
    then show "\<exists>l'. r = Inr l'" by (auto simp: ok_def split: if_splits)
  qed
  with Some show ?thesis by (auto simp: spec_def)
qed

lemma skip_comment_loop_spec:
  "spec (skip_comment_loop l) (\<lambda>l'. True) (\<lambda>e. False)"
proof (cases "skip_comment_loop l")
  case None
  then show ?thesis by simp
next
  case (Some r)
  have "\<exists>l'. r = Inr l'"
  proof (rule skip_comment_loop.raw_induct [where P = "\<lambda>l r. \<exists>l'. r = Inr l'", OF _ Some])
    fix f l r
    assume IH: "\<And>l r. f l = Some r \<Longrightarrow> \<exists>l'. r = Inr l'"
      and eq: "(if char l \<noteq> CHR 0x0A then f (next_char l) else ok l) = Some r"
    then show "\<exists>l'. r = Inr l'" by (auto simp: ok_def split: if_splits)
  qed
  with Some show ?thesis by (auto simp: spec_def)
qed

lemma skip_comment_spec: "spec (skip_comment l) (\<lambda>l'. True) (\<lambda>e. False)"
  by (simp add: skip_comment_def skip_comment_loop_spec)

lemma digits_loop_spec: "spec (digits_loop l) (\<lambda>l'. True) (\<lambda>e. False)"
proof (cases "digits_loop l")
  case None
  then show ?thesis by simp
next
  case (Some r)
  have "\<exists>l'. r = Inr l'"
  proof (rule digits_loop.raw_induct [where P = "\<lambda>l r. \<exists>l'. r = Inr l'", OF _ Some])
    fix f l r
    assume IH: "\<And>l r. f l = Some r \<Longrightarrow> \<exists>l'. r = Inr l'"
      and eq: "(if isdigit (peek l) then f (next_char l) else ok l) = Some r"
    then show "\<exists>l'. r = Inr l'" by (auto simp: ok_def split: if_splits)
  qed
  with Some show ?thesis by (auto simp: spec_def)
qed

lemma alnum_loop_spec: "spec (alnum_loop l) (\<lambda>l'. True) (\<lambda>e. False)"
proof (cases "alnum_loop l")
  case None
  then show ?thesis by simp
next
  case (Some r)
  have "\<exists>l'. r = Inr l'"
  proof (rule alnum_loop.raw_induct [where P = "\<lambda>l r. \<exists>l'. r = Inr l'", OF _ Some])
    fix f l r
    assume IH: "\<And>l r. f l = Some r \<Longrightarrow> \<exists>l'. r = Inr l'"
      and eq: "(if isalnum (peek l) then f (next_char l) else ok l) = Some r"
    then show "\<exists>l'. r = Inr l'" by (auto simp: ok_def split: if_splits)
  qed
  with Some show ?thesis by (auto simp: spec_def)
qed

lemma string_loop_spec: "spec (string_loop l) (\<lambda>l'. True) lexical"
proof (cases "string_loop l")
  case None
  then show ?thesis by simp
next
  case (Some r)
  have "\<forall>e. r = Inl e \<longrightarrow> lexical e"
  proof (rule string_loop.raw_induct [where P = "\<lambda>l r. \<forall>e. r = Inl e \<longrightarrow> lexical e", OF _ Some])
    fix f l r
    assume IH: "\<And>l r. f l = Some r \<Longrightarrow> \<forall>e. r = Inl e \<longrightarrow> lexical e"
      and eq: "(if char l \<noteq> CHR 0x22 then
        (if [char l] \<in> set [[CHR 0x0D], [CHR 0x09], [CHR 0x0A], ''//'', ''%'']
         then Lexer_abort Illegal_character_in_string
         else f (next_char l))
      else ok l) = Some r"
    show "\<forall>e. r = Inl e \<longrightarrow> lexical e"
    proof (cases "char l \<noteq> CHR 0x22 \<and>
        [char l] \<notin> set [[CHR 0x0D], [CHR 0x09], [CHR 0x0A], ''//'', ''%'']")
      case True
      with eq have "f (next_char l) = Some r" by simp
      then show ?thesis by (rule IH)
    next
      case False
      with eq show ?thesis
        by (auto simp: ok_def Lexer_abort_def exit_with_def lexical_def split: if_splits)
    qed
  qed
  with Some show ?thesis by (auto simp: spec_def split: sum.splits)
qed

lemma spec_lexical: "spec r Q (\<lambda>e. False) \<Longrightarrow> spec r Q lexical"
  by (auto simp: spec_def split: option.splits sum.splits)

lemma Lexer_abort_spec [simp]: "spec (Lexer_abort m) Q lexical"
  by (simp add: Lexer_abort_def lexical_def)

lemma scan_token_spec: "spec (scan_token l) (\<lambda>x. True) lexical"
  unfolding scan_token_def ident_token Let_def
  apply (intro spec_if)
  apply ((rule spec_if spec_bind [OF string_loop_spec]
           spec_bind [OF spec_lexical [OF digits_loop_spec]]
           spec_bind [OF spec_lexical [OF alnum_loop_spec]]
           spec_lexical [OF digits_loop_spec] spec_bind [where P = "\<lambda>x. True"]
         | simp split: option.splits)+)
  done

lemma get_token_spec: "spec (get_token l) (\<lambda>x. True) lexical"
  unfolding get_token_def
  apply (rule spec_bind [OF spec_lexical [OF skip_whitespace_spec]])
  apply (rule spec_bind [OF spec_lexical [OF skip_comment_spec]])
  apply (rule spec_bind [OF scan_token_spec])
  apply (simp split: prod.splits)
  done

lemma bind_assoc: "bind (bind m f) g = bind m (\<lambda>x. bind (f x) g)"
  by (simp add: bind_def split: option.splits sum.splits)

lemma program_parsed: "program set_order n s = bind (parsed n s) (check_labels set_order)"
  by (simp add: program_def parsed_def Let_def bind_assoc)

lemma grows_update [simp]:
  "grows (s\<lparr>emitter := e\<rparr>) = grows s"
  "grows s (s'\<lparr>emitter := e\<rparr>) = grows s s'"
  "grows s (s'\<lparr>labels_declared := ld\<rparr>) = grows s s'"
  by (simp_all add: grows_def fun_eq_iff)

lemma fault_update [simp]:
  "fault (s\<lparr>emitter := e\<rparr>) = fault s"
  by (simp_all add: fault_def fun_eq_iff)

lemma grows_refl [simp]: "grows s s"
  by (simp add: grows_def)

lemma grows_trans: "grows s s1 \<Longrightarrow> grows s1 s2 \<Longrightarrow> grows s s2"
  by (auto simp: grows_def)

lemma fault_mono: "grows s s1 \<Longrightarrow> fault s1 e \<Longrightarrow> fault s e"
  by (auto simp: grows_def fault_def)

lemma lexical_fault: "lexical e \<Longrightarrow> fault s e"
  by (auto simp: lexical_def fault_def)

lemma grows_step:
  assumes "spec m (grows s1) (fault s1)" and "grows s0 s1"
    and "\<And>x. grows s0 x \<Longrightarrow> spec (f x) (grows s0) (fault s0)"
  shows "spec (bind m f) (grows s0) (fault s0)"
proof (rule spec_bind [where P = "grows s0"])
  show "spec m (grows s0) (fault s0)"
    using assms(1)
    by (rule spec_weaken) (use assms(2) in \<open>auto intro: grows_trans fault_mono\<close>)
qed (rule assms(3))

lemma grows_last:
  assumes "spec m (grows s1) (fault s1)" and "grows s0 s1"
  shows "spec m (grows s0) (fault s0)"
  using assms(1)
  by (rule spec_weaken) (use assms(2) in \<open>auto intro: grows_trans fault_mono\<close>)

lemma next_token_grows: "spec (next_token s) (grows s) (fault s)"
  unfolding next_token_def
  apply (rule spec_bind [where P = "\<lambda>x. True"])
   apply (rule spec_weaken [OF get_token_spec])
    apply simp
   apply (simp add: lexical_fault)
  apply (simp add: grows_def split: prod.splits)
  done

lemmas grows_defs = grows_def fault_def Parser_abort_def Let_def

lemma match_grows: "spec (match k s) (grows s) (fault s)"
  unfolding match_def
  by (rule spec_if) (simp_all add: grows_defs next_token_grows)

lemma skip_newlines_grows: "spec (skip_newlines n s) (grows s) (fault s)"
proof (induction n arbitrary: s)
  case 0
  show ?case by simp
next
  case (Suc n)
  show ?case
    apply (simp only: skip_newlines.simps)
    apply ((rule spec_if grows_step [OF next_token_grows] grows_last [OF Suc.IH]
           | simp add: grows_defs)+)
    done
qed

lemma nl_grows: "spec (nl n s) (grows s) (fault s)"
  unfolding nl_def
  by ((rule grows_step [OF match_grows] grows_last [OF skip_newlines_grows] | simp)+)

lemma primary_grows: "spec (primary s) (grows s) (fault s)"
  unfolding primary_def
  by ((rule spec_if grows_last [OF next_token_grows] | simp add: grows_defs)+)

lemma unary_grows: "spec (unary s) (grows s) (fault s)"
  unfolding unary_def
  by ((rule spec_if grows_step [OF next_token_grows] grows_last [OF primary_grows] primary_grows
      | simp add: grows_defs)+)

lemma term_loop_grows: "spec (term_loop n s) (grows s) (fault s)"
proof (induction n arbitrary: s)
  case 0
  show ?case by simp
next
  case (Suc n)
  show ?case
    apply (simp only: term_loop.simps)
    apply ((rule spec_if grows_step [OF next_token_grows] grows_step [OF unary_grows]
              grows_last [OF Suc.IH]
           | simp add: grows_defs)+)
    done
qed

lemma term_grows: "spec (term n s) (grows s) (fault s)"
  unfolding term_def
  by ((rule grows_step [OF unary_grows] grows_last [OF term_loop_grows] | simp)+)

lemma expression_loop_grows: "spec (expression_loop n s) (grows s) (fault s)"
proof (induction n arbitrary: s)
  case 0
  show ?case by simp
next
  case (Suc n)
  show ?case
    apply (simp only: expression_loop.simps)
    apply ((rule spec_if grows_step [OF next_token_grows] grows_step [OF term_grows]
              grows_last [OF Suc.IH]
           | simp add: grows_defs)+)
    done
qed

lemma expression_grows: "spec (expression n s) (grows s) (fault s)"
  unfolding expression_def
  by ((rule grows_step [OF term_grows] grows_last [OF expression_loop_grows] | simp)+)

lemma comparison_loop_grows: "spec (comparison_loop n s) (grows s) (fault s)"
proof (induction n arbitrary: s)
  case 0
  show ?case by simp
next
  case (Suc n)
  show ?case
    apply (simp only: comparison_loop.simps)
    apply ((rule spec_if grows_step [OF next_token_grows] grows_step [OF expression_grows]
              grows_last [OF Suc.IH]
           | simp add: grows_defs)+)
    done
qed

lemma comparison_grows: "spec (comparison n s) (grows s) (fault s)"
  unfolding comparison_def
  apply (rule grows_step [OF expression_grows])
   apply simp
  apply (rule spec_bind [where P = "grows s"])
   apply ((rule spec_if grows_step [OF next_token_grows] grows_last [OF expression_grows]
          | simp add: grows_defs)+)[1]
  apply ((rule grows_last [OF comparison_loop_grows] | simp)+)
  done

lemma statement_grows_aux:
  "(\<forall>s. spec (statement n s) (grows s) (fault s)) \<and>
   (\<forall>s k. spec (statements_until n k s) (grows s) (fault s))"
proof (induction n)
  case 0
  show ?case by simp
next
  case (Suc n)
  then have IH1: "\<And>s. spec (statement n s) (grows s) (fault s)"
    and IH2: "\<And>s k. spec (statements_until n k s) (grows s) (fault s)"
    by simp_all
  have 1: "spec (statement (Suc n) s) (grows s) (fault s)" for s
    apply (simp only: statement.simps)
    apply (rule spec_bind [where P = "grows s"])
     apply (intro spec_if)
            subgoal by ((rule conjI impI spec_if
                grows_step [OF next_token_grows] grows_step [OF match_grows]
                grows_step [OF comparison_grows] grows_step [OF expression_grows]
                grows_step [OF nl_grows] grows_step [OF IH2]
                grows_last [OF next_token_grows] grows_last [OF match_grows]
              | simp add: grows_defs subset_insertI2 split: if_split_asm)+)
            subgoal by ((rule conjI impI spec_if
                grows_step [OF next_token_grows] grows_step [OF match_grows]
                grows_step [OF comparison_grows] grows_step [OF expression_grows]
                grows_step [OF nl_grows] grows_step [OF IH2]
                grows_last [OF next_token_grows] grows_last [OF match_grows]
              | simp add: grows_defs subset_insertI2 split: if_split_asm)+)
            subgoal by ((rule conjI impI spec_if
                grows_step [OF next_token_grows] grows_step [OF match_grows]
                grows_step [OF comparison_grows] grows_step [OF expression_grows]
                grows_step [OF nl_grows] grows_step [OF IH2]
                grows_last [OF next_token_grows] grows_last [OF match_grows]
              | simp add: grows_defs subset_insertI2 split: if_split_asm)+)
            subgoal by ((rule conjI impI spec_if
                grows_step [OF next_token_grows] grows_step [OF match_grows]
                grows_step [OF comparison_grows] grows_step [OF expression_grows]
                grows_step [OF nl_grows] grows_step [OF IH2]
                grows_last [OF next_token_grows] grows_last [OF match_grows]
              | simp add: grows_defs subset_insertI2 split: if_split_asm)+)
            subgoal by ((rule conjI impI spec_if
                grows_step [OF next_token_grows] grows_step [OF match_grows]
                grows_step [OF comparison_grows] grows_step [OF expression_grows]
                grows_step [OF nl_grows] grows_step [OF IH2]
                grows_last [OF next_token_grows] grows_last [OF match_grows]
              | simp add: grows_defs subset_insertI2 split: if_split_asm)+)
            subgoal by ((rule conjI impI spec_if
                grows_step [OF next_token_grows] grows_step [OF match_grows]
                grows_step [OF comparison_grows] grows_step [OF expression_grows]
                grows_step [OF nl_grows] grows_step [OF IH2]
                grows_last [OF next_token_grows] grows_last [OF match_grows]
              | simp add: grows_defs subset_insertI2 split: if_split_asm)+)
            subgoal by ((rule conjI impI spec_if
                grows_step [OF next_token_grows] grows_step [OF match_grows]
                grows_step [OF comparison_grows] grows_step [OF expression_grows]
                grows_step [OF nl_grows] grows_step [OF IH2]
                grows_last [OF next_token_grows] grows_last [OF match_grows]
              | simp add: grows_defs subset_insertI2 split: if_split_asm)+)
            subgoal by ((rule conjI impI spec_if
                grows_step [OF next_token_grows] grows_step [OF match_grows]
                grows_step [OF comparison_grows] grows_step [OF expression_grows]
                grows_step [OF nl_grows] grows_step [OF IH2]
                grows_last [OF next_token_grows] grows_last [OF match_grows]
              | simp add: grows_defs subset_insertI2 split: if_split_asm)+)
    apply ((rule grows_last [OF nl_grows] | simp)+)
    done
  have 2: "spec (statements_until (Suc n) k s) (grows s) (fault s)" for s k
    apply (simp only: statements_until.simps)
    apply ((rule spec_if grows_step [OF IH1] grows_last [OF IH2] | simp)+)
    done
  from 1 2 show ?case by blast
qed

lemma statements_until_grows: "spec (statements_until n k s) (grows s) (fault s)"
  using statement_grows_aux [of n] by simp

lemma statement_grows: "spec (statement n s) (grows s) (fault s)"
  using statement_grows_aux [of n] by simp

lemma parsed_grows: "spec (parsed n s) (grows s) (fault s)"
  unfolding parsed_def Let_def
  by ((rule grows_step [OF skip_newlines_grows] grows_step [OF statements_until_grows]
      | simp)+)

lemma bind_eq_ok: "(bind m f = ok y) = (\<exists>x. m = ok x \<and> f x = ok y)"
  by (auto simp: bind_def ok_def split: option.splits sum.splits)

lemma bind_eq_exit:
  "(bind m f = exit_with e) = (m = exit_with e \<or> (\<exists>x. m = ok x \<and> f x = exit_with e))"
  by (auto simp: bind_def ok_def exit_with_def split: option.splits sum.splits)

lemma ok_inject [simp]: "(ok x = ok y) = (x = y)"
  by (simp add: ok_def)

lemma ok_not_exit [simp]: "ok x \<noteq> exit_with e" "exit_with e \<noteq> ok x"
  by (simp_all add: ok_def exit_with_def)

lemma None_not_result [simp]:
  "None \<noteq> ok x" "None \<noteq> exit_with e" "ok x \<noteq> None" "exit_with e \<noteq> None"
  by (simp_all add: ok_def exit_with_def)

lemma exit_inject [simp]: "(exit_with e = exit_with e') = (e = e')"
  by (simp add: exit_with_def)

lemma result_cases:
  obtains (diverges) "r = None" | (fails) e where "r = exit_with e" | (returns) x where "r = ok x"
proof (cases r)
  case None
  then show ?thesis by (rule diverges)
next
  case (Some a)
  show ?thesis
  proof (cases a)
    case (Inl e)
    with Some show ?thesis by (intro fails [of e]) (simp add: exit_with_def)
  next
    case (Inr x)
    with Some show ?thesis by (intro returns [of x]) (simp add: ok_def)
  qed
qed

lemma check_labels_ok:
  assumes "set (set_order (labels_gotoed s)) = labels_gotoed s"
    and "labels_gotoed s \<subseteq> labels_declared s"
  shows "check_labels set_order s = ok s"
proof -
  have "find (\<lambda>label. label \<notin> labels_declared s) (set_order (labels_gotoed s)) = None"
    using assms by (auto simp: find_None_iff)
  then show ?thesis by (simp add: check_labels_def)
qed

lemma check_labels_abort:
  assumes "set (set_order (labels_gotoed s)) = labels_gotoed s"
    and "\<not> labels_gotoed s \<subseteq> labels_declared s"
  shows "\<exists>label \<in> labels_gotoed s - labels_declared s.
     check_labels set_order s = Parser_abort (Attempting_to_GOTO_an_undeclared_label label)"
proof (cases "find (\<lambda>label. label \<notin> labels_declared s) (set_order (labels_gotoed s))")
  case None
  with assms show ?thesis by (auto simp: find_None_iff)
next
  case (Some label)
  then have "label \<in> set (set_order (labels_gotoed s))" "label \<notin> labels_declared s"
    by (auto simp: find_Some_iff)
  with assms(1) Some show ?thesis by (auto simp: check_labels_def)
qed

lemma check_labels_ok_iff:
  assumes "set (set_order (labels_gotoed s)) = labels_gotoed s"
  shows "(check_labels set_order s = ok s') = (s' = s \<and> labels_gotoed s \<subseteq> labels_declared s)"
proof (cases "labels_gotoed s \<subseteq> labels_declared s")
  case True
  with assms show ?thesis by (auto simp: check_labels_ok)
next
  case False
  with check_labels_abort [of set_order s, OF assms] show ?thesis by (auto simp: Parser_abort_def)
qed

lemma parsed_finite:
  "parsed n s = ok s' \<Longrightarrow> finite (labels_gotoed s) \<Longrightarrow> finite (labels_gotoed s')"
  using spec_Inr [OF parsed_grows, of n s s'] by (simp add: grows_def)

lemma parsed_fault:
  "parsed n s = exit_with e \<Longrightarrow> e \<noteq> Error (Attempting_to_GOTO_an_undeclared_label label)"
  using spec_Inl [OF parsed_grows, of n s e] by (simp add: fault_def)

lemma next_token_fields:
  assumes "next_token s = ok s'"
  shows "symbols s' = symbols s \<and> labels_gotoed s' = labels_gotoed s \<and>
    labels_declared s' = labels_declared s \<and> emitter s' = emitter s \<and>
    current_token s' = peek_token s"
  using assms by (auto simp: next_token_def bind_eq_ok split: prod.splits)

lemma Parser_init_fields:
  assumes "Parser_init l em = ok s"
  shows "symbols s = {} \<and> labels_gotoed s = {} \<and> labels_declared s = {} \<and> emitter s = em"
proof -
  from assms obtain s1 where
    "next_token \<lparr>lex = l, emitter = em,
                        current_token = \<lparr>text = [], kind = EOF\<rparr>,
                        peek_token = \<lparr>text = [], kind = EOF\<rparr>,
                        symbols = {}, labels_declared = {}, labels_gotoed = {}\<rparr> = ok s1"
    "next_token s1 = ok s"
    by (auto simp: Parser_init_def bind_eq_ok)
  then show ?thesis by (auto dest!: next_token_fields)
qed

lemma main_ok_iff:
  "(main set_order n input = ok out) =
   (\<exists>p s'. Parser_init (Lexer_init input) (Emitter_init ''out.c'') = ok p \<and>
      parsed n p = ok s' \<and> check_labels set_order s' = ok s' \<and> out = write_file (emitter s'))"
proof -
  have "check_labels set_order s' = ok s'' \<Longrightarrow> s'' = s'" for s' s''
    by (auto simp: check_labels_def Parser_abort_def split: option.splits)
  then show ?thesis
    by (auto simp: main_def Let_def program_parsed bind_eq_ok)
qed

section \<open>Token texts and string literals\<close>

text \<open>
  Claim C1 says that every token's text is its exact lexeme, in particular for the four
  two-character operators, and that the comparison rule emits that lexeme. The code keeps
  this for \<^verbatim>\<open>!=\<close>, \<^verbatim>\<open>>=\<close> and \<^verbatim>\<open><=\<close>, but the branch for \<^verbatim>\<open>==\<close> builds the token from
  the first character alone: the lexeme \<^verbatim>\<open>==\<close> is scanned to a token of kind
  \<^verbatim>\<open>EQEQ\<close> whose text is \<^verbatim>\<open>=\<close>, and the comparison \<^verbatim>\<open>a == 1\<close> is emitted as
  \<^verbatim>\<open>a=1\<close>.
\<close>

theorem eqeq_token_text:
  \<open>get_token (Lexer_init ''=='') =
     ok (\<lparr>text = ''='', kind = EQEQ\<rparr>,
         \<lparr>source = ''==\<newline>'', source_len = 3, char = CHR 0x0A, pos = 2\<rparr>) \<and>
   main sorted_list_of_set 30 ''LET a = 1\<newline>IF a == 1 THEN\<newline>ENDIF'' =
     ok ''#include <stdio.h>\<newline>int main(void){\<newline>float a;\<newline>a = 1;\<newline>if(a=1){\<newline>}\<newline>return 0;\<newline>}\<newline>''\<close>
  by code_simp

text \<open>
  Claim C5 says that a carriage return, a tab, a newline, the two-character substring
  \<^verbatim>\<open>//\<close> or a percent sign inside a string literal is a lexical error. The scan compares
  the current character, a string of length one, with each member of a tuple that holds
  \<^verbatim>\<open>//\<close>, so that member never matches: a literal that contains \<^verbatim>\<open>//\<close> is scanned to a
  string token and compiled.
\<close>

theorem string_with_slashes_accepted:
  \<open>get_token (Lexer_init ''"a//b"'') =
     ok (\<lparr>text = ''a//b'', kind = STRING\<rparr>,
         \<lparr>source = ''"a//b"\<newline>'', source_len = 7, char = CHR 0x0A, pos = 6\<rparr>) \<and>
   main sorted_list_of_set 30 ''PRINT "a//b"'' =
     ok (''#include <stdio.h>\<newline>int main(void){\<newline>printf("a//b'' @ [CHR 0x5C] @ ''n");\<newline>return 0;\<newline>}\<newline>'')\<close>
  by code_simp

section \<open>Unterminated string literals\<close>

text \<open>
  Claim C6 says that a string literal with no closing quote before the end of the input
  makes the lexer detect end-of-input during the scan and fail with an error for an
  unterminated string. The lexer has no such error, and the scan never reaches the end of
  the input: the source ends with the newline that the constructor appends, and a newline
  inside a literal is an illegal character. For the input \<^verbatim>\<open>"abc\<close>, alone or after
  \<^verbatim>\<open>PRINT\<close>, the failure is the one for an illegal character in a string.
\<close>

theorem unterminated_string_counterexample:
  \<open>get_token (Lexer_init ''"abc'') = Lexer_abort Illegal_character_in_string \<and>
   main sorted_list_of_set 30 ''PRINT "abc'' = Lexer_abort Illegal_character_in_string\<close>
  by code_simp

text \<open>
  Claim C6 as amended: when the cursor is on an opening quote and no further quote
  follows in the source, \<^verbatim>\<open>get_token\<close> fails with the error for an illegal character
  in a string (at the first carriage return, tab, newline or percent sign of the rest, at
  the latest at the appended newline).
\<close>

theorem unterminated_string_is_illegal_character:
  assumes "lexer_inv l" "char l = CHR 0x22"
    and "CHR 0x22 \<notin> set (drop (nat (pos l) + 1) (source l))"
  shows "get_token l = Lexer_abort Illegal_character_in_string"
proof -
  from assms have lt0: "pos l < source_len l" by (simp add: char_inside)
  with assms have lt: "pos l + 1 < source_len l" by (simp add: not_last)
  have inv1: "lexer_inv (next_char l)" using assms by (simp add: next_char_inv)
  from assms(1) have "0 \<le> pos l" by (simp add: lexer_inv_def)
  then have "nat (pos (next_char l)) = nat (pos l) + 1" by simp
  with assms(3) have "CHR 0x22 \<notin> set (drop (nat (pos (next_char l))) (source (next_char l)))"
    by simp
  with inv1 lt have "string_loop (next_char l) = Lexer_abort Illegal_character_in_string"
    by (intro string_loop_unterminated) simp_all
  with assms(2) have "scan_token l = Lexer_abort Illegal_character_in_string"
    by (simp add: scan_token_def Let_def Lexer_abort_def)
  with assms(2) show ?thesis
    by (simp add: get_token_def skip_whitespace_other skip_comment_def Lexer_abort_def)
qed

text \<open>
  The amended claim C6 at the input \<^verbatim>\<open>"abc\<close>.
\<close>

theorem unterminated_string_is_illegal_character_witness:
  \<open>lexer_inv (Lexer_init ''"abc'') \<and> char (Lexer_init ''"abc'') = CHR 0x22 \<and>
   CHR 0x22 \<notin> set (drop (nat (pos (Lexer_init ''"abc'')) + 1) (source (Lexer_init ''"abc''))) \<and>
   get_token (Lexer_init ''"abc'') = Lexer_abort Illegal_character_in_string\<close>
proof -
  have h1: \<open>lexer_inv (Lexer_init ''"abc'')\<close> by (rule Lexer_init_inv)
  have h2: \<open>char (Lexer_init ''"abc'') = CHR 0x22\<close> by code_simp
  have h3: \<open>CHR 0x22 \<notin> set (drop (nat (pos (Lexer_init ''"abc'')) + 1)
     (source (Lexer_init ''"abc'')))\<close> by code_simp
  from unterminated_string_is_illegal_character [OF h1 h2 h3] h1 h2 h3 show ?thesis by simp
qed

section \<open>The cursor\<close>

text \<open>
  Claim C8 says that after construction and after every character advance made while
  producing the tokens up to and including the end-of-input token, the offset is a valid
  index into the source or exactly its length. The last statement of \<^verbatim>\<open>get_token\<close>
  advances the cursor whatever the token is: on the empty input the first call returns
  the newline and leaves the offset at the length 1, and the second call returns the
  end-of-input token and leaves the offset at 2.
\<close>

theorem cursor_counterexample:
  \<open>get_token (Lexer_init []) =
     ok (\<lparr>text = ''\<newline>'', kind = NEWLINE\<rparr>,
         \<lparr>source = ''\<newline>'', source_len = 1, char = CHR 0x00, pos = 1\<rparr>) \<and>
   get_token \<lparr>source = ''\<newline>'', source_len = 1, char = CHR 0x00, pos = 1\<rparr> =
     ok (\<lparr>text = [CHR 0x00], kind = EOF\<rparr>,
         \<lparr>source = ''\<newline>'', source_len = 1, char = CHR 0x00, pos = 2\<rparr>) \<and>
   \<not> cursor_in_range \<lparr>source = ''\<newline>'', source_len = 1, char = CHR 0x00, pos = 2\<rparr>\<close>
  by code_simp

text \<open>
  Claim C8 as amended: the constructor leaves the offset in range; a call of
  \<^verbatim>\<open>get_token\<close> that starts with the offset in range keeps it in range up to its final
  advance (the cursor only moves forward, one character at a time, through the states
  from \<open>l\<close> to \<open>l3\<close>), and after that final advance the offset is in range again if
  the token is not end-of-input, and at most one more than the length if it is. Throughout,
  the current character is the character at the offset, or \<^verbatim>\<open>"\0"\<close> from the length on.
\<close>

theorem cursor_bound:
  "lexer_inv (Lexer_init input) \<and> cursor_in_range (Lexer_init input) \<and>
   (lexer_inv l \<longrightarrow> cursor_in_range l \<longrightarrow> get_token l = ok (t, l') \<longrightarrow>
      (\<exists>l3. l' = next_char l3 \<and> lexer_inv l3 \<and> source l3 = source l \<and>
            pos l \<le> pos l3 \<and> cursor_in_range l3) \<and>
      lexer_inv l' \<and> source l' = source l \<and> source_len l' = source_len l \<and>
      (kind t \<noteq> EOF \<longrightarrow> cursor_in_range l') \<and> pos l' \<le> source_len l' + 1)"
proof (intro conjI impI)
  show "lexer_inv (Lexer_init input)" by (rule Lexer_init_inv)
  show "cursor_in_range (Lexer_init input)"
    by (simp add: cursor_in_range_def Lexer_init_pos Lexer_init_len)
next
  assume inv: "lexer_inv l" and r: "cursor_in_range l" and g: "get_token l = ok (t, l')"
  from get_token_inv [OF inv] g obtain l3 where
    l3: "l' = next_char l3" "scanned l (t, l3)"
    by (auto simp: returns_def ok_def)
  from l3(2) r inv have p: "lexer_inv l3" "source l3 = source l" "source_len l3 = source_len l"
    "pos l \<le> pos l3" "pos l3 \<le> source_len l" "kind t \<noteq> EOF \<longrightarrow> pos l3 < source_len l"
    by (auto simp: scanned_def moved_def cursor_in_range_def)
  from p r show "\<exists>l3. l' = next_char l3 \<and> lexer_inv l3 \<and> source l3 = source l \<and>
            pos l \<le> pos l3 \<and> cursor_in_range l3"
    using l3(1) by (auto simp: cursor_in_range_def)
  from p l3(1) show "lexer_inv l'" by (simp add: next_char_inv)
  from p l3(1) show "source l' = source l" by simp
  from p l3(1) show "source_len l' = source_len l" by simp
  from p l3(1) r show "pos l' \<le> source_len l' + 1" by simp
  assume "kind t \<noteq> EOF"
  with p l3(1) r show "cursor_in_range l'" by (simp add: cursor_in_range_def)
qed

text \<open>
  The amended claim C8 at the first token of \<^verbatim>\<open>LET a = 1\<close>.
\<close>

theorem cursor_bound_witness:
  \<open>lexer_inv (Lexer_init ''LET a = 1'') \<and> cursor_in_range (Lexer_init ''LET a = 1'') \<and>
   get_token (Lexer_init ''LET a = 1'') =
     ok (\<lparr>text = ''LET'', kind = LET\<rparr>,
         \<lparr>source = ''LET a = 1\<newline>'', source_len = 10, char = CHR '' '', pos = 3\<rparr>) \<and>
   cursor_in_range \<lparr>source = ''LET a = 1\<newline>'', source_len = 10, char = CHR '' '', pos = 3\<rparr> \<and>
   lexer_inv \<lparr>source = ''LET a = 1\<newline>'', source_len = 10, char = CHR '' '', pos = 3\<rparr>\<close>
proof -
  have g: \<open>get_token (Lexer_init ''LET a = 1'') =
     ok (\<lparr>text = ''LET'', kind = LET\<rparr>,
         \<lparr>source = ''LET a = 1\<newline>'', source_len = 10, char = CHR '' '', pos = 3\<rparr>)\<close>
    by code_simp
  have h1: \<open>lexer_inv (Lexer_init ''LET a = 1'')\<close> by (rule Lexer_init_inv)
  have h2: \<open>cursor_in_range (Lexer_init ''LET a = 1'')\<close> by code_simp
  have k: \<open>kind \<lparr>text = ''LET'', kind = LET\<rparr> \<noteq> EOF\<close> by simp
  from cursor_bound [of "''LET a = 1''" "Lexer_init ''LET a = 1''" "\<lparr>text = ''LET'', kind = LET\<rparr>"
      "\<lparr>source = ''LET a = 1\<newline>'', source_len = 10, char = CHR '' '', pos = 3\<rparr>"] g h1 h2 k
  show ?thesis by blast
qed

section \<open>Identifiers that are not declared\<close>

text \<open>
  Claim C3: wherever an expression is parsed, an identifier token whose text is not in
  the symbol table makes the compilation fail at once with the error for a reference
  before assignment, naming the identifier. This holds for \<^verbatim>\<open>primary\<close> and for every
  rule that starts an operand with it (\<^verbatim>\<open>unary\<close>, \<^verbatim>\<open>term\<close>, \<^verbatim>\<open>expression\<close>,
  \<^verbatim>\<open>comparison\<close>); only the symbol table as it is at that token decides, whatever
  statement or block the expression is in.
\<close>

theorem undeclared_identifier_aborts:
  assumes "check_token IDENT s" "text (current_token s) \<notin> symbols s"
  shows "primary s = Parser_abort (Referencing_variable_before_assignment (text (current_token s))) \<and>
    unary s = Parser_abort (Referencing_variable_before_assignment (text (current_token s))) \<and>
    term n s = Parser_abort (Referencing_variable_before_assignment (text (current_token s))) \<and>
    expression n s = Parser_abort (Referencing_variable_before_assignment (text (current_token s))) \<and>
    comparison n s = Parser_abort (Referencing_variable_before_assignment (text (current_token s)))"
proof -
  from assms have p: "primary s =
      Parser_abort (Referencing_variable_before_assignment (text (current_token s)))"
    by (simp add: primary_def check_token_def)
  with assms(1) have u: "unary s =
      Parser_abort (Referencing_variable_before_assignment (text (current_token s)))"
    by (simp add: unary_def check_token_def)
  then have t: "term n s =
      Parser_abort (Referencing_variable_before_assignment (text (current_token s)))"
    by (simp add: term_def Parser_abort_def)
  then have e: "expression n s =
      Parser_abort (Referencing_variable_before_assignment (text (current_token s)))"
    by (simp add: expression_def Parser_abort_def)
  then have "comparison n s =
      Parser_abort (Referencing_variable_before_assignment (text (current_token s)))"
    by (simp add: comparison_def Parser_abort_def)
  with p u t e show ?thesis by simp
qed

text \<open>
  Claim C3 at the parser constructed on \<^verbatim>\<open>a + 1\<close>, and the error for an identifier
  that is used only inside the body of an \<^verbatim>\<open>IF\<close> whose condition is false.
\<close>

theorem undeclared_identifier_aborts_witness:
  \<open>Parser_init (Lexer_init ''a + 1'') (Emitter_init ''out.c'') =
     ok \<lparr>lex = \<lparr>source = ''a + 1\<newline>'', source_len = 6, char = CHR '' '', pos = 3\<rparr>,
         emitter = \<lparr>outfile = ''out.c'', header = [], code = []\<rparr>,
         current_token = \<lparr>text = ''a'', kind = IDENT\<rparr>,
         peek_token = \<lparr>text = ''+'', kind = PLUS\<rparr>, symbols = {},
         labels_declared = {}, labels_gotoed = {}\<rparr> \<and>
   expression 5
       \<lparr>lex = \<lparr>source = ''a + 1\<newline>'', source_len = 6, char = CHR '' '', pos = 3\<rparr>,
         emitter = \<lparr>outfile = ''out.c'', header = [], code = []\<rparr>,
         current_token = \<lparr>text = ''a'', kind = IDENT\<rparr>,
         peek_token = \<lparr>text = ''+'', kind = PLUS\<rparr>, symbols = {},
         labels_declared = {}, labels_gotoed = {}\<rparr> =
     Parser_abort (Referencing_variable_before_assignment ''a'') \<and>
   main sorted_list_of_set 30 ''LET a = 1\<newline>IF a > 2 THEN\<newline>PRINT b\<newline>ENDIF'' =
     Parser_abort (Referencing_variable_before_assignment ''b'')\<close>
proof -
  have 1: \<open>Parser_init (Lexer_init ''a + 1'') (Emitter_init ''out.c'') =
     ok \<lparr>lex = \<lparr>source = ''a + 1\<newline>'', source_len = 6, char = CHR '' '', pos = 3\<rparr>,
         emitter = \<lparr>outfile = ''out.c'', header = [], code = []\<rparr>,
         current_token = \<lparr>text = ''a'', kind = IDENT\<rparr>,
         peek_token = \<lparr>text = ''+'', kind = PLUS\<rparr>, symbols = {},
         labels_declared = {}, labels_gotoed = {}\<rparr>\<close>
    by code_simp
  have 3: \<open>main sorted_list_of_set 30 ''LET a = 1\<newline>IF a > 2 THEN\<newline>PRINT b\<newline>ENDIF'' =
     Parser_abort (Referencing_variable_before_assignment ''b'')\<close>
    by code_simp
  from undeclared_identifier_aborts [of
       "\<lparr>lex = \<lparr>source = ''a + 1\<newline>'', source_len = 6, char = CHR '' '', pos = 3\<rparr>,
         emitter = \<lparr>outfile = ''out.c'', header = [], code = []\<rparr>,
         current_token = \<lparr>text = ''a'', kind = IDENT\<rparr>,
         peek_token = \<lparr>text = ''+'', kind = PLUS\<rparr>, symbols = {},
         labels_declared = {}, labels_gotoed = {}\<rparr>" 5] 1 3
  show ?thesis by (simp add: check_token_def)
qed

text \<open>
  Claim C7: in a \<^verbatim>\<open>LET\<close> statement the target is put into the symbol table before
  the expression on the right is parsed. So the statement never fails with a reference
  before assignment to its own target, declared before or not, and when it succeeds the
  target is in the symbol table.
\<close>

theorem let_target_declared_first:
  assumes "check_token LET s" and "next_token s = ok s1"
  shows "statement (Suc n) s \<noteq>
           Parser_abort (Referencing_variable_before_assignment (text (current_token s1))) \<and>
         (\<forall>s'. statement (Suc n) s = ok s' \<longrightarrow> text (current_token s1) \<in> symbols s')"
proof -
  define x where "x = text (current_token s1)"
  define s2 where "s2 = (if x \<notin> symbols s1 then
                        s1\<lparr>symbols := insert x (symbols s1),
                           emitter := header_line (''float '' @ x @ '';'') (emitter s1)\<rparr>
                      else s1)"
  have in2: "x \<in> symbols s2" by (simp add: s2_def)
  have cur2: "current_token s2 = current_token s1" by (simp add: s2_def)
  from assms(1) have k: "\<not> check_token PRINT s" "\<not> check_token IF s" "\<not> check_token WHILE s"
    "\<not> check_token LABEL s" "\<not> check_token GOTO s"
    by (auto simp: check_token_def)
  have eq: "statement (Suc n) s =
    bind (bind (match IDENT (s2\<lparr>emitter := emit (x @ '' = '') (emitter s2)\<rparr>)) (\<lambda>s3.
            bind (match EQ s3) (\<lambda>s4.
            bind (expression n s4) (\<lambda>s5.
              ok (s5\<lparr>emitter := emit_line '';'' (emitter s5)\<rparr>))))) (nl n)"
    using assms k by (simp add: Let_def s2_def x_def cur2 [unfolded s2_def x_def])
  have "spec (statement (Suc n) s) (grows s2) (fault s2)"
    unfolding eq
    by ((rule grows_step [OF match_grows] grows_step [OF expression_grows]
          grows_last [OF nl_grows] spec_bind [where P = "grows s2"]
        | simp)+)
  then have "statement (Suc n) s \<noteq> Parser_abort (Referencing_variable_before_assignment x)"
    and "\<forall>s'. statement (Suc n) s = ok s' \<longrightarrow> x \<in> symbols s'"
    using in2 by (auto simp: Parser_abort_def fault_def grows_def dest: spec_Inl spec_Inr)
  then show ?thesis by (simp add: x_def)
qed

text \<open>
  Claim C7 at the statement \<^verbatim>\<open>LET a = a\<close>, and the output of its compilation.
\<close>

theorem let_target_declared_first_witness:
  \<open>check_token LET
     \<lparr>lex = \<lparr>source = ''LET a = a\<newline>'', source_len = 10, char = CHR '' '', pos = 5\<rparr>,
       emitter = \<lparr>outfile = ''out.c'', header = [], code = []\<rparr>,
       current_token = \<lparr>text = ''LET'', kind = LET\<rparr>,
       peek_token = \<lparr>text = ''a'', kind = IDENT\<rparr>, symbols = {},
       labels_declared = {}, labels_gotoed = {}\<rparr> \<and>
   next_token
     \<lparr>lex = \<lparr>source = ''LET a = a\<newline>'', source_len = 10, char = CHR '' '', pos = 5\<rparr>,
       emitter = \<lparr>outfile = ''out.c'', header = [], code = []\<rparr>,
       current_token = \<lparr>text = ''LET'', kind = LET\<rparr>,
       peek_token = \<lparr>text = ''a'', kind = IDENT\<rparr>, symbols = {},
       labels_declared = {}, labels_gotoed = {}\<rparr> =
     ok \<lparr>lex = \<lparr>source = ''LET a = a\<newline>'', source_len = 10, char = CHR '' '', pos = 7\<rparr>,
         emitter = \<lparr>outfile = ''out.c'', header = [], code = []\<rparr>,
         current_token = \<lparr>text = ''a'', kind = IDENT\<rparr>,
         peek_token = \<lparr>text = ''='', kind = EQ\<rparr>, symbols = {},
         labels_declared = {}, labels_gotoed = {}\<rparr> \<and>
   statement (Suc 5)
     \<lparr>lex = \<lparr>source = ''LET a = a\<newline>'', source_len = 10, char = CHR '' '', pos = 5\<rparr>,
       emitter = \<lparr>outfile = ''out.c'', header = [], code = []\<rparr>,
       current_token = \<lparr>text = ''LET'', kind = LET\<rparr>,
       peek_token = \<lparr>text = ''a'', kind = IDENT\<rparr>, symbols = {},
       labels_declared = {}, labels_gotoed = {}\<rparr> \<noteq>
     Parser_abort (Referencing_variable_before_assignment ''a'') \<and>
   main sorted_list_of_set 30 ''LET a = a'' =
     ok ''#include <stdio.h>\<newline>int main(void){\<newline>float a;\<newline>a = a;\<newline>return 0;\<newline>}\<newline>''\<close>
proof -
  have c: \<open>check_token LET
     \<lparr>lex = \<lparr>source = ''LET a = a\<newline>'', source_len = 10, char = CHR '' '', pos = 5\<rparr>,
       emitter = \<lparr>outfile = ''out.c'', header = [], code = []\<rparr>,
       current_token = \<lparr>text = ''LET'', kind = LET\<rparr>,
       peek_token = \<lparr>text = ''a'', kind = IDENT\<rparr>, symbols = {},
       labels_declared = {}, labels_gotoed = {}\<rparr>\<close>
    by (simp add: check_token_def)
  have t: \<open>next_token
     \<lparr>lex = \<lparr>source = ''LET a = a\<newline>'', source_len = 10, char = CHR '' '', pos = 5\<rparr>,
       emitter = \<lparr>outfile = ''out.c'', header = [], code = []\<rparr>,
       current_token = \<lparr>text = ''LET'', kind = LET\<rparr>,
       peek_token = \<lparr>text = ''a'', kind = IDENT\<rparr>, symbols = {},
       labels_declared = {}, labels_gotoed = {}\<rparr> =
     ok \<lparr>lex = \<lparr>source = ''LET a = a\<newline>'', source_len = 10, char = CHR '' '', pos = 7\<rparr>,
         emitter = \<lparr>outfile = ''out.c'', header = [], code = []\<rparr>,
         current_token = \<lparr>text = ''a'', kind = IDENT\<rparr>,
         peek_token = \<lparr>text = ''='', kind = EQ\<rparr>, symbols = {},
         labels_declared = {}, labels_gotoed = {}\<rparr>\<close>
    by code_simp
  have m: \<open>main sorted_list_of_set 30 ''LET a = a'' =
     ok ''#include <stdio.h>\<newline>int main(void){\<newline>float a;\<newline>a = a;\<newline>return 0;\<newline>}\<newline>''\<close>
    by code_simp
  from let_target_declared_first [OF c t, of 5] c t m
  show ?thesis by simp
qed

section \<open>Labels\<close>

text \<open>
  Claim C2: the check that every jump target is declared runs once, after the whole
  program has been parsed and the closing scaffolding emitted. For every iteration order
  of the set \<^verbatim>\<open>labels_gotoed\<close>: \<^verbatim>\<open>program\<close> fails with the error for an undeclared label
  exactly when the parse has succeeded and some jump target is not among the declared
  labels; when all of them are declared \<^verbatim>\<open>program\<close> succeeds, whatever else is declared;
  and an error of the parse itself is passed on and is never the one for an undeclared
  label, so a \<^verbatim>\<open>GOTO\<close> is not checked where it stands.
\<close>

theorem label_check_only_at_end:
  assumes "\<And>S. finite S \<Longrightarrow> set (set_order S) = S" and "finite (labels_gotoed s)"
  shows "((\<exists>label. program set_order n s =
              Parser_abort (Attempting_to_GOTO_an_undeclared_label label)) \<longleftrightarrow>
          (\<exists>s'. parsed n s = ok s' \<and> \<not> labels_gotoed s' \<subseteq> labels_declared s')) \<and>
         (\<forall>s'. parsed n s = ok s' \<and> labels_gotoed s' \<subseteq> labels_declared s' \<longrightarrow>
            program set_order n s = ok s') \<and>
         (\<forall>e. parsed n s = exit_with e \<longrightarrow> program set_order n s = exit_with e \<and>
            (\<forall>label. e \<noteq> Error (Attempting_to_GOTO_an_undeclared_label label)))"
proof (cases "parsed n s" rule: result_cases)
  case diverges
  then show ?thesis by (simp add: program_parsed Parser_abort_def)
next
  case (fails e)
  with parsed_fault [of n s e] show ?thesis
    by (auto simp: program_parsed Parser_abort_def)
next
  case (returns s')
  then have "finite (labels_gotoed s')" using assms(2) by (rule parsed_finite)
  then have order: "set (set_order (labels_gotoed s')) = labels_gotoed s'" by (rule assms(1))
  show ?thesis
  proof (cases "labels_gotoed s' \<subseteq> labels_declared s'")
    case True
    with returns check_labels_ok [of set_order s', OF order] show ?thesis
      by (auto simp: program_parsed Parser_abort_def)
  next
    case False
    with returns check_labels_abort [of set_order s', OF order] show ?thesis
      by (auto simp: program_parsed Parser_abort_def)
  qed
qed

text \<open>
  Claim C2 at the program \<^verbatim>\<open>GOTO x\<close>, \<^verbatim>\<open>LABEL x\<close>, whose jump precedes its label;
  with it, the outputs for a jump before its label, for a label that is never jumped to,
  and the error for a jump to a label that is never declared.
\<close>

theorem label_check_only_at_end_witness:
  \<open>finite (labels_gotoed
     \<lparr>lex = \<lparr>source = ''GOTO x\<newline>LABEL x\<newline>'', source_len = 15, char = CHR 0x0A, pos = 6\<rparr>,
       emitter = \<lparr>outfile = ''out.c'', header = [], code = []\<rparr>,
       current_token = \<lparr>text = ''GOTO'', kind = GOTO\<rparr>,
       peek_token = \<lparr>text = ''x'', kind = IDENT\<rparr>, symbols = {},
       labels_declared = {}, labels_gotoed = {}\<rparr>) \<and>
   program sorted_list_of_set 20
     \<lparr>lex = \<lparr>source = ''GOTO x\<newline>LABEL x\<newline>'', source_len = 15, char = CHR 0x0A, pos = 6\<rparr>,
       emitter = \<lparr>outfile = ''out.c'', header = [], code = []\<rparr>,
       current_token = \<lparr>text = ''GOTO'', kind = GOTO\<rparr>,
       peek_token = \<lparr>text = ''x'', kind = IDENT\<rparr>, symbols = {},
       labels_declared = {}, labels_gotoed = {}\<rparr> =
     ok \<lparr>lex = \<lparr>source = ''GOTO x\<newline>LABEL x\<newline>'', source_len = 15, char = CHR 0x00, pos = 17\<rparr>,
         emitter = \<lparr>outfile = ''out.c'',
                     header = ''#include <stdio.h>\<newline>int main(void){\<newline>'',
                     code = ''goto x;\<newline>x:\<newline>return 0;\<newline>}\<newline>''\<rparr>,
         current_token = \<lparr>text = [CHR 0x00], kind = EOF\<rparr>,
         peek_token = \<lparr>text = [CHR 0x00], kind = EOF\<rparr>, symbols = {},
         labels_declared = {''x''}, labels_gotoed = {''x''}\<rparr> \<and>
   main sorted_list_of_set 30 ''GOTO x\<newline>LABEL x\<newline>PRINT "done"'' =
     ok (''#include <stdio.h>\<newline>int main(void){\<newline>goto x;\<newline>x:\<newline>printf("done'' @ [CHR 0x5C] @ ''n");\<newline>return 0;\<newline>}\<newline>'') \<and>
   main sorted_list_of_set 30 ''LABEL x\<newline>PRINT "done"'' =
     ok (''#include <stdio.h>\<newline>int main(void){\<newline>x:\<newline>printf("done'' @ [CHR 0x5C] @ ''n");\<newline>return 0;\<newline>}\<newline>'') \<and>
   main sorted_list_of_set 30 ''GOTO y'' =
     Parser_abort (Attempting_to_GOTO_an_undeclared_label ''y'')\<close>
proof -
  have o: "\<And>S :: string set. finite S \<Longrightarrow> set (sorted_list_of_set S) = S" by simp
  have f: \<open>finite (labels_gotoed
     \<lparr>lex = \<lparr>source = ''GOTO x\<newline>LABEL x\<newline>'', source_len = 15, char = CHR 0x0A, pos = 6\<rparr>,
       emitter = \<lparr>outfile = ''out.c'', header = [], code = []\<rparr>,
       current_token = \<lparr>text = ''GOTO'', kind = GOTO\<rparr>,
       peek_token = \<lparr>text = ''x'', kind = IDENT\<rparr>, symbols = {},
       labels_declared = {}, labels_gotoed = {}\<rparr>)\<close> by simp
  have p: \<open>parsed 20
     \<lparr>lex = \<lparr>source = ''GOTO x\<newline>LABEL x\<newline>'', source_len = 15, char = CHR 0x0A, pos = 6\<rparr>,
       emitter = \<lparr>outfile = ''out.c'', header = [], code = []\<rparr>,
       current_token = \<lparr>text = ''GOTO'', kind = GOTO\<rparr>,
       peek_token = \<lparr>text = ''x'', kind = IDENT\<rparr>, symbols = {},
       labels_declared = {}, labels_gotoed = {}\<rparr> =
     ok \<lparr>lex = \<lparr>source = ''GOTO x\<newline>LABEL x\<newline>'', source_len = 15, char = CHR 0x00, pos = 17\<rparr>,
         emitter = \<lparr>outfile = ''out.c'',
                     header = ''#include <stdio.h>\<newline>int main(void){\<newline>'',
                     code = ''goto x;\<newline>x:\<newline>return 0;\<newline>}\<newline>''\<rparr>,
         current_token = \<lparr>text = [CHR 0x00], kind = EOF\<rparr>,
         peek_token = \<lparr>text = [CHR 0x00], kind = EOF\<rparr>, symbols = {},
         labels_declared = {''x''}, labels_gotoed = {''x''}\<rparr>\<close>
    by code_simp
  have sub: \<open>labels_gotoed
       \<lparr>lex = \<lparr>source = ''GOTO x\<newline>LABEL x\<newline>'', source_len = 15, char = CHR 0x00, pos = 17\<rparr>,
         emitter = \<lparr>outfile = ''out.c'',
                     header = ''#include <stdio.h>\<newline>int main(void){\<newline>'',
                     code = ''goto x;\<newline>x:\<newline>return 0;\<newline>}\<newline>''\<rparr>,
         current_token = \<lparr>text = [CHR 0x00], kind = EOF\<rparr>,
         peek_token = \<lparr>text = [CHR 0x00], kind = EOF\<rparr>, symbols = {},
         labels_declared = {''x''}, labels_gotoed = {''x''}\<rparr>
     \<subseteq> labels_declared
       \<lparr>lex = \<lparr>source = ''GOTO x\<newline>LABEL x\<newline>'', source_len = 15, char = CHR 0x00, pos = 17\<rparr>,
         emitter = \<lparr>outfile = ''out.c'',
                     header = ''#include <stdio.h>\<newline>int main(void){\<newline>'',
                     code = ''goto x;\<newline>x:\<newline>return 0;\<newline>}\<newline>''\<rparr>,
         current_token = \<lparr>text = [CHR 0x00], kind = EOF\<rparr>,
         peek_token = \<lparr>text = [CHR 0x00], kind = EOF\<rparr>, symbols = {},
         labels_declared = {''x''}, labels_gotoed = {''x''}\<rparr>\<close>
    by simp
  have m1: \<open>main sorted_list_of_set 30 ''GOTO x\<newline>LABEL x\<newline>PRINT "done"'' =
     ok (''#include <stdio.h>\<newline>int main(void){\<newline>goto x;\<newline>x:\<newline>printf("done'' @ [CHR 0x5C] @ ''n");\<newline>return 0;\<newline>}\<newline>'')\<close>
    by code_simp
  have m2: \<open>main sorted_list_of_set 30 ''LABEL x\<newline>PRINT "done"'' =
     ok (''#include <stdio.h>\<newline>int main(void){\<newline>x:\<newline>printf("done'' @ [CHR 0x5C] @ ''n");\<newline>return 0;\<newline>}\<newline>'')\<close>
    by code_simp
  have m3: \<open>main sorted_list_of_set 30 ''GOTO y'' =
     Parser_abort (Attempting_to_GOTO_an_undeclared_label ''y'')\<close>
    by code_simp
  from label_check_only_at_end [of sorted_list_of_set _ 20, OF o f] p sub f m1 m2 m3
  show ?thesis by blast
qed

section \<open>Determinism\<close>

text \<open>
  Claim C9: two runs of the compiler on the same text give the same output. The one
  thing a run can do differently is the order in which it visits the set of jump targets
  in the final check (and, in this model, the bound on iterations). If one run succeeds
  with an output, then so does any other run, with the same output, whatever order it
  iterates in, provided its bound is not smaller or is at least twice the length of the
  input plus five.
\<close>

theorem output_deterministic:
  assumes "\<And>S. finite S \<Longrightarrow> set (order1 S) = S" and "\<And>S. finite S \<Longrightarrow> set (order2 S) = S"
    and "main order1 n1 input = ok out"
    and "n1 \<le> n2 \<or> 2 * length input + 5 \<le> n2"
  shows "main order2 n2 input = ok out"
proof -
  define N where "N = max n1 n2"
  have "settled (main order1 n1 input) (main order1 N input)"
    by (rule main_fuel) (simp add: N_def)
  with assms(3) have "main order1 N input = ok out" by (simp add: settled_def ok_def)
  then obtain p s' where p: "Parser_init (Lexer_init input) (Emitter_init ''out.c'') = ok p"
    and s': "parsed N p = ok s'" and c: "check_labels order1 s' = ok s'"
    and out: "out = write_file (emitter s')"
    by (auto simp: main_ok_iff)
  from p have "finite (labels_gotoed p)" by (simp add: Parser_init_fields)
  with s' have fin: "finite (labels_gotoed s')" by (rule parsed_finite)
  from c have "labels_gotoed s' \<subseteq> labels_declared s'"
    by (simp add: check_labels_ok_iff [of order1 s', OF assms(1) [OF fin]])
  then have "check_labels order2 s' = ok s'"
    by (simp add: check_labels_ok_iff [of order2 s', OF assms(2) [OF fin]])
  with p s' out have big: "main order2 N input = ok out" by (auto simp: main_ok_iff)
  have "settled (main order2 n2 input) (main order2 N input)"
    by (rule main_fuel) (simp add: N_def)
  moreover have "main order2 n2 input \<noteq> None"
  proof (cases "n1 \<le> n2")
    case True
    then have "N = n2" by (simp add: N_def)
    with big show ?thesis by (simp add: ok_def)
  next
    case False
    with assms(4) have "2 * length input + 5 \<le> n2" by simp
    then have "returns (main order2 n2 input) (\<lambda>out. True)" by (rule main_returns)
    then show ?thesis by (auto dest: returns_Some)
  qed
  ultimately show ?thesis using big by (simp add: settled_def)
qed

text \<open>
  Claim C9 at a program with two labels and two jumps, for the ascending and the
  descending order of the set.
\<close>

theorem output_deterministic_witness:
  \<open>main sorted_list_of_set 30 ''GOTO x\<newline>LABEL x\<newline>LABEL y\<newline>GOTO y'' =
     ok ''#include <stdio.h>\<newline>int main(void){\<newline>goto x;\<newline>x:\<newline>y:\<newline>goto y;\<newline>return 0;\<newline>}\<newline>'' \<and>
   ((30 :: nat) \<le> 40 \<or> 2 * length ''GOTO x\<newline>LABEL x\<newline>LABEL y\<newline>GOTO y'' + 5 \<le> (40 :: nat)) \<and>
   main (rev \<circ> sorted_list_of_set) 40 ''GOTO x\<newline>LABEL x\<newline>LABEL y\<newline>GOTO y'' =
     ok ''#include <stdio.h>\<newline>int main(void){\<newline>goto x;\<newline>x:\<newline>y:\<newline>goto y;\<newline>return 0;\<newline>}\<newline>''\<close>
proof -
  have o1: "\<And>S :: string set. finite S \<Longrightarrow> set (sorted_list_of_set S) = S" by simp
  have o2: "\<And>S :: string set. finite S \<Longrightarrow> set ((rev \<circ> sorted_list_of_set) S) = S" by simp
  have m: \<open>main sorted_list_of_set 30 ''GOTO x\<newline>LABEL x\<newline>LABEL y\<newline>GOTO y'' =
     ok ''#include <stdio.h>\<newline>int main(void){\<newline>goto x;\<newline>x:\<newline>y:\<newline>goto y;\<newline>return 0;\<newline>}\<newline>''\<close>
    by code_simp
  have n: \<open>(30 :: nat) \<le> 40 \<or>
      2 * length ''GOTO x\<newline>LABEL x\<newline>LABEL y\<newline>GOTO y'' + 5 \<le> (40 :: nat)\<close> by simp
  from output_deterministic [of sorted_list_of_set "rev \<circ> sorted_list_of_set", OF o1 o2 m n]
    m n
  show ?thesis by blast
qed

section \<open>Termination\<close>

text \<open>
  Claim C10: compilation terminates on every input. A call of \<^verbatim>\<open>get_token\<close> that
  returns has moved the cursor forward; a call of \<^verbatim>\<open>statement\<close> that returns has
  consumed at least one token, so the lexer's cursor has moved forward; and \<^verbatim>\<open>main\<close>
  comes to an end, with the output or with an error, once the bound on iterations is
  at least twice the length of the input plus five.
\<close>

theorem compilation_terminates:
  "(lexer_inv l \<longrightarrow> get_token l = ok (t, l') \<longrightarrow> pos l < pos l') \<and>
   (parser_inv s \<longrightarrow> statement n s = ok s' \<longrightarrow> pos (lex s) < pos (lex s')) \<and>
   (2 * length input + 5 \<le> m \<longrightarrow> (\<exists>r. main set_order m input = Some r))"
proof (intro conjI impI)
  assume inv: "lexer_inv l" and g: "get_token l = ok (t, l')"
  from get_token_inv [OF inv] g obtain l3 where "l' = next_char l3" "scanned l (t, l3)"
    by (auto simp: returns_def ok_def)
  then show "pos l < pos l'" by (simp add: scanned_def moved_def)
next
  assume inv: "parser_inv s" and st: "statement n s = ok s'"
  define N where "N = max n (nat (2 * budget s))"
  have "settled (statement n s) (statement N s)"
    by (rule statement_fuel) (simp add: N_def)
  with st have "statement N s = ok s'" by (simp add: settled_def ok_def)
  moreover have "returns (statement N s) (advanced s)"
    using inv by (rule statement_adv) (simp add: N_def)
  ultimately have "advanced s s'" by simp
  then show "pos (lex s) < pos (lex s')" by (simp add: advanced_def)
next
  assume "2 * length input + 5 \<le> m"
  then have "returns (main set_order m input) (\<lambda>out. True)" by (rule main_returns)
  then show "\<exists>r. main set_order m input = Some r" by (rule returns_Some)
qed

text \<open>
  Claim C10 at the input \<^verbatim>\<open>LET a = 1\<close>: its first token, its statement, and the
  whole compilation.
\<close>

theorem compilation_terminates_witness:
  \<open>lexer_inv (Lexer_init ''LET a = 1'') \<and>
   get_token (Lexer_init ''LET a = 1'') =
     ok (\<lparr>text = ''LET'', kind = LET\<rparr>,
         \<lparr>source = ''LET a = 1\<newline>'', source_len = 10, char = CHR '' '', pos = 3\<rparr>) \<and>
   pos (Lexer_init ''LET a = 1'') <
     pos \<lparr>source = ''LET a = 1\<newline>'', source_len = 10, char = CHR '' '', pos = 3\<rparr> \<and>
   parser_inv
     \<lparr>lex = \<lparr>source = ''LET a = 1\<newline>'', source_len = 10, char = CHR '' '', pos = 5\<rparr>,
       emitter = \<lparr>outfile = ''out.c'', header = [], code = []\<rparr>,
       current_token = \<lparr>text = ''LET'', kind = LET\<rparr>,
       peek_token = \<lparr>text = ''a'', kind = IDENT\<rparr>, symbols = {},
       labels_declared = {}, labels_gotoed = {}\<rparr> \<and>
   statement 5
     \<lparr>lex = \<lparr>source = ''LET a = 1\<newline>'', source_len = 10, char = CHR '' '', pos = 5\<rparr>,
       emitter = \<lparr>outfile = ''out.c'', header = [], code = []\<rparr>,
       current_token = \<lparr>text = ''LET'', kind = LET\<rparr>,
       peek_token = \<lparr>text = ''a'', kind = IDENT\<rparr>, symbols = {},
       labels_declared = {}, labels_gotoed = {}\<rparr> =
     ok \<lparr>lex = \<lparr>source = ''LET a = 1\<newline>'', source_len = 10, char = CHR 0x00, pos = 12\<rparr>,
         emitter = \<lparr>outfile = ''out.c'', header = ''float a;\<newline>'', code = ''a = 1;\<newline>''\<rparr>,
         current_token = \<lparr>text = [CHR 0x00], kind = EOF\<rparr>,
         peek_token = \<lparr>text = [CHR 0x00], kind = EOF\<rparr>, symbols = {''a''},
         labels_declared = {}, labels_gotoed = {}\<rparr> \<and>
   2 * length ''LET a = 1'' + 5 \<le> (23::nat) \<and>
   (\<exists>r. main sorted_list_of_set 23 ''LET a = 1'' = Some r)\<close>
proof -
  have h1: \<open>lexer_inv (Lexer_init ''LET a = 1'')\<close> by (rule Lexer_init_inv)
  have h2: \<open>get_token (Lexer_init ''LET a = 1'') =
     ok (\<lparr>text = ''LET'', kind = LET\<rparr>,
         \<lparr>source = ''LET a = 1\<newline>'', source_len = 10, char = CHR '' '', pos = 3\<rparr>)\<close>
    by code_simp
  have h3: \<open>parser_inv
     \<lparr>lex = \<lparr>source = ''LET a = 1\<newline>'', source_len = 10, char = CHR '' '', pos = 5\<rparr>,
       emitter = \<lparr>outfile = ''out.c'', header = [], code = []\<rparr>,
       current_token = \<lparr>text = ''LET'', kind = LET\<rparr>,
       peek_token = \<lparr>text = ''a'', kind = IDENT\<rparr>, symbols = {},
       labels_declared = {}, labels_gotoed = {}\<rparr>\<close>
    by (simp add: parser_inv_def lexer_inv_def)
  have h4: \<open>statement 5
     \<lparr>lex = \<lparr>source = ''LET a = 1\<newline>'', source_len = 10, char = CHR '' '', pos = 5\<rparr>,
       emitter = \<lparr>outfile = ''out.c'', header = [], code = []\<rparr>,
       current_token = \<lparr>text = ''LET'', kind = LET\<rparr>,
       peek_token = \<lparr>text = ''a'', kind = IDENT\<rparr>, symbols = {},
       labels_declared = {}, labels_gotoed = {}\<rparr> =
     ok \<lparr>lex = \<lparr>source = ''LET a = 1\<newline>'', source_len = 10, char = CHR 0x00, pos = 12\<rparr>,
         emitter = \<lparr>outfile = ''out.c'', header = ''float a;\<newline>'', code = ''a = 1;\<newline>''\<rparr>,
         current_token = \<lparr>text = [CHR 0x00], kind = EOF\<rparr>,
         peek_token = \<lparr>text = [CHR 0x00], kind = EOF\<rparr>, symbols = {''a''},
         labels_declared = {}, labels_gotoed = {}\<rparr>\<close>
    by code_simp
  have h5: \<open>2 * length ''LET a = 1'' + 5 \<le> (23::nat)\<close> by simp
  from compilation_terminates [of "Lexer_init ''LET a = 1''" "\<lparr>text = ''LET'', kind = LET\<rparr>"
     "\<lparr>source = ''LET a = 1\<newline>'', source_len = 10, char = CHR '' '', pos = 3\<rparr>"
     "\<lparr>lex = \<lparr>source = ''LET a = 1\<newline>'', source_len = 10, char = CHR '' '', pos = 5\<rparr>,
       emitter = \<lparr>outfile = ''out.c'', header = [], code = []\<rparr>,
       current_token = \<lparr>text = ''LET'', kind = LET\<rparr>,
       peek_token = \<lparr>text = ''a'', kind = IDENT\<rparr>, symbols = {},
       labels_declared = {}, labels_gotoed = {}\<rparr>" 5
     "\<lparr>lex = \<lparr>source = ''LET a = 1\<newline>'', source_len = 10, char = CHR 0x00, pos = 12\<rparr>,
         emitter = \<lparr>outfile = ''out.c'', header = ''float a;\<newline>'', code = ''a = 1;\<newline>''\<rparr>,
         current_token = \<lparr>text = [CHR 0x00], kind = EOF\<rparr>,
         peek_token = \<lparr>text = [CHR 0x00], kind = EOF\<rparr>, symbols = {''a''},
         labels_declared = {}, labels_gotoed = {}\<rparr>"
     "''LET a = 1''" 23 sorted_list_of_set] h1 h2 h3 h4 h5
  show ?thesis by blast
qed

end
